theory Spec2Isabelle
  imports
    Complex_Main
    "HOL-Library.Word"
    "HOL-Library.Multiset"
    "HOL-Library.Signed_Division"
begin

section \<open>Data model\<close>

text \<open>
  The embedding follows \<^verbatim>\<open>include/image.hpp\<close>, \<^verbatim>\<open>include/kernels.hpp\<close>,
  \<^verbatim>\<open>include/filter.hpp\<close>, \<^verbatim>\<open>src/kernels.cpp\<close> and \<^verbatim>\<open>src/filter.cpp\<close>.

  \<^item> \<^verbatim>\<open>uint8_t\<close> is \<open>8 word\<close>.
  \<^item> \<^verbatim>\<open>int\<close> is \<open>int\<close>; C++ \<^verbatim>\<open>/\<close> and \<^verbatim>\<open>%\<close> are \<open>sdiv\<close> and \<open>smod\<close>
    (truncation towards zero). Signed overflow is undefined behaviour in C++; the
    theorems state, as hypotheses, the bounds that keep every \<^verbatim>\<open>int\<close> expression of
    the code below \<open>INT_MAX\<close>.
  \<^item> \<^verbatim>\<open>float\<close> in the convolution engine is the type \<open>float\<close> below: IEEE 754
    binary32 with its infinities and NaN, every operation rounded to the nearest
    value, ties to even.
  \<^item> \<^verbatim>\<open>float\<close> in Sobel edge detection and \<^verbatim>\<open>double\<close> in the reduction engine are
    \<open>real\<close>. The statements about them are about sums of small integers, which both
    types represent exactly, or about exact arithmetic.
  \<^item> An exception is a value \<open>Inl e\<close> of a sum type.
\<close>

type_synonym uint8 = "8 word"

definition INT_MAX :: int where
  "INT_MAX = 2147483647"

datatype error = invalid_argument string | out_of_range string

text \<open>\<^verbatim>\<open>class GrayscaleImage\<close>: row-major samples.\<close>

record GrayscaleImage =
  width :: int
  height :: int
  max_val :: int
  data :: "uint8 list"

text \<open>The constructor \<^verbatim>\<open>GrayscaleImage(int w, int h, int maxv = 255)\<close>: \<open>w * h\<close> zero samples.\<close>

definition new_image :: "int \<Rightarrow> int \<Rightarrow> int \<Rightarrow> GrayscaleImage" where
  "new_image w h maxv =
     \<lparr>width = w, height = h, max_val = maxv, data = replicate (nat (w * h)) 0\<rparr>"

text \<open>The unchecked accessor \<^verbatim>\<open>pixel(x, y)\<close>, as a read and as a store.\<close>

definition pixel :: "GrayscaleImage \<Rightarrow> int \<Rightarrow> int \<Rightarrow> uint8" where
  "pixel img x y = data img ! nat (y * width img + x)"

definition set_pixel :: "GrayscaleImage \<Rightarrow> int \<Rightarrow> int \<Rightarrow> uint8 \<Rightarrow> GrayscaleImage" where
  "set_pixel img x y v = img\<lparr>data := (data img)[nat (y * width img + x) := v]\<rparr>"

text \<open>The invariant of a pixel buffer: the sample count is \<open>width * height\<close>, an \<^verbatim>\<open>int\<close>.\<close>

definition wf_image :: "GrayscaleImage \<Rightarrow> bool" where
  "wf_image img \<longleftrightarrow>
     0 \<le> width img \<and> 0 \<le> height img \<and> width img * height img \<le> INT_MAX \<and>
     length (data img) = nat (width img * height img)"

subsection \<open>Single-precision arithmetic\<close>

text \<open>
  A \<^verbatim>\<open>float\<close> is a finite value, an infinity or NaN. A finite value is given by the
  number it stands for: every value of binary32 is one, and the operations below
  return no other. The two zeros are one value: the sign of a zero shows in a
  division by it only, and the theorems exclude a zero divisor.
\<close>

datatype float = Finite real | PlusInf | MinusInf | NaN

text \<open>The nearest integer, a tie going to the even one.\<close>

definition round_to_even :: "real \<Rightarrow> int" where
  "round_to_even x =
     (let n = \<lfloor>x\<rfloor>; f = x - of_int n
      in if f < 1 / 2 then n else if 1 / 2 < f then n + 1 else if even n then n else n + 1)"

text \<open>
  The exponent \<open>e\<close> of the binade of a number \<open>x\<close>, the one with \<open>2^e\<close> at most
  \<open>\<bar>x\<bar>\<close> and \<open>2^(e+1)\<close> above it, among the exponents \<open>-126\<close> to \<open>127\<close> of binary32.
  It is found by counting up from \<open>-126\<close>, where the subnormal numbers are.
\<close>

fun binade_from :: "nat \<Rightarrow> int \<Rightarrow> real \<Rightarrow> int" where
  "binade_from 0 e a = e"
| "binade_from (Suc n) e a = (if power_int 2 (e + 1) \<le> a then binade_from n (e + 1) a else e)"

definition binade :: "real \<Rightarrow> int" where
  "binade x = binade_from 253 (- 126) \<bar>x\<bar>"

text \<open>
  Rounding of an exact result to \<^verbatim>\<open>float\<close>: the nearest multiple of \<open>2^(e-23)\<close>,
  the spacing of the 24-bit significands in the binade \<open>e\<close>; a rounded magnitude of
  \<open>2^128\<close> or more overflows to an infinity.
\<close>

definition round_float :: "real \<Rightarrow> float" where
  "round_float x =
     (let q = power_int 2 (binade x - 23);
          r = of_int (round_to_even (x / q)) * q
      in if 2 ^ 128 \<le> r then PlusInf else if r \<le> - (2 ^ 128) then MinusInf else Finite r)"

text \<open>The operators \<^verbatim>\<open>+\<close>, \<^verbatim>\<open>*\<close>, \<^verbatim>\<open>/\<close> and \<^verbatim>\<open><\<close> on \<^verbatim>\<open>float\<close>. Each of the three
  arithmetic operations rounds its exact result (no fused multiply-add).\<close>

fun fadd :: "float \<Rightarrow> float \<Rightarrow> float" where
  "fadd (Finite a) (Finite b) = round_float (a + b)"
| "fadd NaN _ = NaN"
| "fadd _ NaN = NaN"
| "fadd PlusInf MinusInf = NaN"
| "fadd MinusInf PlusInf = NaN"
| "fadd PlusInf _ = PlusInf"
| "fadd _ PlusInf = PlusInf"
| "fadd MinusInf _ = MinusInf"
| "fadd _ MinusInf = MinusInf"

fun fmul :: "float \<Rightarrow> float \<Rightarrow> float" where
  "fmul (Finite a) (Finite b) = round_float (a * b)"
| "fmul NaN _ = NaN"
| "fmul _ NaN = NaN"
| "fmul (Finite a) PlusInf = (if a = 0 then NaN else if 0 < a then PlusInf else MinusInf)"
| "fmul (Finite a) MinusInf = (if a = 0 then NaN else if 0 < a then MinusInf else PlusInf)"
| "fmul PlusInf (Finite b) = (if b = 0 then NaN else if 0 < b then PlusInf else MinusInf)"
| "fmul MinusInf (Finite b) = (if b = 0 then NaN else if 0 < b then MinusInf else PlusInf)"
| "fmul PlusInf PlusInf = PlusInf"
| "fmul PlusInf MinusInf = MinusInf"
| "fmul MinusInf PlusInf = MinusInf"
| "fmul MinusInf MinusInf = PlusInf"

fun fdiv :: "float \<Rightarrow> float \<Rightarrow> float" where
  "fdiv (Finite a) (Finite b) =
     (if b = 0 then (if a = 0 then NaN else if 0 < a then PlusInf else MinusInf)
      else round_float (a / b))"
| "fdiv NaN _ = NaN"
| "fdiv _ NaN = NaN"
| "fdiv (Finite a) _ = Finite 0"
| "fdiv PlusInf (Finite b) = (if 0 \<le> b then PlusInf else MinusInf)"
| "fdiv MinusInf (Finite b) = (if 0 \<le> b then MinusInf else PlusInf)"
| "fdiv _ _ = NaN"

fun flt :: "float \<Rightarrow> float \<Rightarrow> bool" where
  "flt (Finite a) (Finite b) = (a < b)"
| "flt NaN _ = False"
| "flt _ NaN = False"
| "flt PlusInf _ = False"
| "flt _ MinusInf = False"
| "flt MinusInf _ = True"
| "flt _ PlusInf = True"

text \<open>\<^verbatim>\<open>std::min(a, b)\<close> is \<^verbatim>\<open>(b < a) ? b : a\<close>, \<^verbatim>\<open>std::max(a, b)\<close> is
  \<^verbatim>\<open>(a < b) ? b : a\<close>, and \<^verbatim>\<open>std::clamp(v, lo, hi)\<close> is
  \<^verbatim>\<open>(v < lo) ? lo : (hi < v) ? hi : v\<close>. A comparison with NaN is false.\<close>

definition std_min :: "float \<Rightarrow> float \<Rightarrow> float" where
  "std_min a b = (if flt b a then b else a)"

definition std_max :: "float \<Rightarrow> float \<Rightarrow> float" where
  "std_max a b = (if flt a b then b else a)"

definition std_clamp :: "float \<Rightarrow> float \<Rightarrow> float \<Rightarrow> float" where
  "std_clamp v lo hi = (if flt v lo then lo else if flt hi v then hi else v)"

text \<open>\<^verbatim>\<open>static_cast<float>\<close> of a sample: every byte is a \<^verbatim>\<open>float\<close>.\<close>

definition uint8_to_float :: "uint8 \<Rightarrow> float" where
  "uint8_to_float v = Finite (real (unat v))"

text \<open>
  \<^verbatim>\<open>static_cast<uint8_t>\<close> of a \<^verbatim>\<open>float\<close> drops the fraction (\<open>float_to_uint8\<close>, on the
  value). It is defined when the result fits a byte, that is for the finite values
  strictly between \<open>-1\<close> and \<open>256\<close>; on every other value, NaN among them, the
  behaviour of the program is undefined. \<open>cast_defined\<close> is that domain, and
  \<open>static_cast_uint8\<close> is the cast on it.
\<close>

definition float_to_uint8 :: "real \<Rightarrow> uint8" where
  "float_to_uint8 v = word_of_int (if 0 \<le> v then \<lfloor>v\<rfloor> else \<lceil>v\<rceil>)"

definition cast_defined :: "float \<Rightarrow> bool" where
  "cast_defined f = (case f of Finite v \<Rightarrow> - 1 < v \<and> v < 256 | _ \<Rightarrow> False)"

definition static_cast_uint8 :: "float \<Rightarrow> uint8" where
  "static_cast_uint8 f = (case f of Finite v \<Rightarrow> float_to_uint8 v | _ \<Rightarrow> 0)"

subsection \<open>Kernels and configurations\<close>

text \<open>\<^verbatim>\<open>struct Kernel\<close>; the fields \<^verbatim>\<open>data\<close>, \<^verbatim>\<open>size\<close> and \<^verbatim>\<open>name\<close> carry a suffix.\<close>

record Kernel =
  data_k :: "float list"
  size_k :: int
  divisor :: float
  name_k :: string

definition kernel_at :: "Kernel \<Rightarrow> int \<Rightarrow> int \<Rightarrow> float" where
  "kernel_at k x y = data_k k ! nat (y * size_k k + x)"

definition radius :: "Kernel \<Rightarrow> int" where
  "radius k = size_k k sdiv 2"

text \<open>
  The invariant of a kernel: an odd size, \<open>size * size\<close> weights, and a divisor that is
  not zero (a zero divisor is a caller error).
\<close>

definition wf_kernel :: "Kernel \<Rightarrow> bool" where
  "wf_kernel k \<longleftrightarrow>
     1 \<le> size_k k \<and> odd (size_k k) \<and> size_k k * size_k k \<le> INT_MAX \<and>
     length (data_k k) = nat (size_k k * size_k k) \<and> divisor k \<noteq> Finite 0"

datatype Schedule = STATIC | DYNAMIC | GUIDED

record FilterConfig =
  num_threads :: int
  schedule :: Schedule
  chunk_size :: int
  use_tiling :: bool
  tile_size :: int

section \<open>The kernel catalogue\<close>

definition box_blur_3x3 :: Kernel where
  "box_blur_3x3 = \<lparr>data_k = map Finite [1, 1, 1,
                                         1, 1, 1,
                                         1, 1, 1],
                    size_k = 3, divisor = Finite 9, name_k = ''Box Blur 3x3''\<rparr>"

definition gaussian_blur_3x3 :: Kernel where
  "gaussian_blur_3x3 = \<lparr>data_k = map Finite [1, 2, 1,
                                              2, 4, 2,
                                              1, 2, 1],
                         size_k = 3, divisor = Finite 16, name_k = ''Gaussian Blur 3x3''\<rparr>"

definition sharpen_3x3 :: Kernel where
  "sharpen_3x3 = \<lparr>data_k = map Finite [ 0, -1,  0,
                                        -1,  5, -1,
                                         0, -1,  0],
                   size_k = 3, divisor = Finite 1, name_k = ''Sharpen 3x3''\<rparr>"

definition sharpen_strong_3x3 :: Kernel where
  "sharpen_strong_3x3 = \<lparr>data_k = map Finite [-1, -1, -1,
                                               -1,  9, -1,
                                               -1, -1, -1],
                          size_k = 3, divisor = Finite 1, name_k = ''Strong Sharpen 3x3''\<rparr>"

definition sobel_x_3x3 :: Kernel where
  "sobel_x_3x3 = \<lparr>data_k = map Finite [-1, 0, 1,
                                        -2, 0, 2,
                                        -1, 0, 1],
                   size_k = 3, divisor = Finite 1, name_k = ''Sobel X''\<rparr>"

definition sobel_y_3x3 :: Kernel where
  "sobel_y_3x3 = \<lparr>data_k = map Finite [-1, -2, -1,
                                         0,  0,  0,
                                         1,  2,  1],
                   size_k = 3, divisor = Finite 1, name_k = ''Sobel Y''\<rparr>"

definition prewitt_x_3x3 :: Kernel where
  "prewitt_x_3x3 = \<lparr>data_k = map Finite [-1, 0, 1,
                                          -1, 0, 1,
                                          -1, 0, 1],
                     size_k = 3, divisor = Finite 1, name_k = ''Prewitt X''\<rparr>"

definition prewitt_y_3x3 :: Kernel where
  "prewitt_y_3x3 = \<lparr>data_k = map Finite [-1, -1, -1,
                                           0,  0,  0,
                                           1,  1,  1],
                     size_k = 3, divisor = Finite 1, name_k = ''Prewitt Y''\<rparr>"

definition laplacian_3x3 :: Kernel where
  "laplacian_3x3 = \<lparr>data_k = map Finite [0,  1, 0,
                                          1, -4, 1,
                                          0,  1, 0],
                     size_k = 3, divisor = Finite 1, name_k = ''Laplacian''\<rparr>"

definition emboss_3x3 :: Kernel where
  "emboss_3x3 = \<lparr>data_k = map Finite [-2, -1, 0,
                                       -1,  1, 1,
                                        0,  1, 2],
                  size_k = 3, divisor = Finite 1, name_k = ''Emboss''\<rparr>"

definition identity_3x3 :: Kernel where
  "identity_3x3 = \<lparr>data_k = map Finite [0, 0, 0,
                                         0, 1, 0,
                                         0, 0, 0],
                    size_k = 3, divisor = Finite 1, name_k = ''Identity''\<rparr>"

definition box_blur_5x5 :: Kernel where
  "box_blur_5x5 = \<lparr>data_k = map Finite ([1, 1, 1, 1, 1] @
                                        [1, 1, 1, 1, 1] @
                                        [1, 1, 1, 1, 1] @
                                        [1, 1, 1, 1, 1] @
                                        [1, 1, 1, 1, 1]),
                    size_k = 5, divisor = Finite 25, name_k = ''Box Blur 5x5''\<rparr>"

definition gaussian_blur_5x5 :: Kernel where
  "gaussian_blur_5x5 = \<lparr>data_k = map Finite [1,  4,  6,  4, 1,
                                              4, 16, 24, 16, 4,
                                              6, 24, 36, 24, 6,
                                              4, 16, 24, 16, 4,
                                              1,  4,  6,  4, 1],
                         size_k = 5, divisor = Finite 256, name_k = ''Gaussian Blur 5x5''\<rparr>"

definition unsharp_mask_5x5 :: Kernel where
  "unsharp_mask_5x5 = \<lparr>data_k = map Finite [-1, -4,  -6, -4, -1,
                                             -4, -16, -24, -16, -4,
                                             -6, -24, 476, -24, -6,
                                             -4, -16, -24, -16, -4,
                                             -1, -4,  -6, -4, -1],
                        size_k = 5, divisor = Finite 256, name_k = ''Unsharp Mask 5x5''\<rparr>"

definition sobel_x_5x5 :: Kernel where
  "sobel_x_5x5 = \<lparr>data_k = map Finite [-1, -2, 0, 2, 1,
                                        -4, -8, 0, 8, 4,
                                        -6, -12, 0, 12, 6,
                                        -4, -8, 0, 8, 4,
                                        -1, -2, 0, 2, 1],
                   size_k = 5, divisor = Finite 1, name_k = ''Sobel X 5x5''\<rparr>"

definition sobel_y_5x5 :: Kernel where
  "sobel_y_5x5 = \<lparr>data_k = map Finite [-1, -4, -6, -4, -1,
                                        -2, -8, -12, -8, -2,
                                         0,  0,  0,  0,  0,
                                         2,  8, 12,  8,  2,
                                         1,  4,  6,  4,  1],
                   size_k = 5, divisor = Finite 1, name_k = ''Sobel Y 5x5''\<rparr>"

definition log_5x5 :: Kernel where
  "log_5x5 = \<lparr>data_k = map Finite [0,  0, -1,  0, 0,
                                    0, -1, -2, -1, 0,
                                   -1, -2, 16, -2, -1,
                                    0, -1, -2, -1, 0,
                                    0,  0, -1,  0, 0],
               size_k = 5, divisor = Finite 1, name_k = ''LoG 5x5''\<rparr>"

text \<open>
  \<^verbatim>\<open>std::tolower\<close> on an \<^verbatim>\<open>unsigned char\<close>, in the default "C" locale (the program
  never sets another): the letters \<open>A\<close> to \<open>Z\<close> move to \<open>a\<close> to \<open>z\<close>, every other
  character stays.
\<close>

definition tolower :: "char \<Rightarrow> char" where
  "tolower c =
     (let n = (of_char c :: nat) in if 65 \<le> n \<and> n \<le> 90 then char_of (n + 32) else c)"

text \<open>
  What it is for two names to differ in case only, said without \<^verbatim>\<open>tolower\<close>: they have
  the same length, and at every position the same character or the two cases of one
  ASCII letter, the upper-case letters being the codes 65 to 90 and each lower-case
  letter 32 above its upper-case one.
\<close>

definition same_letter :: "char \<Rightarrow> char \<Rightarrow> bool" where
  "same_letter a b \<longleftrightarrow>
     a = b \<or>
     (65 \<le> (of_char a :: nat) \<and> (of_char a :: nat) \<le> 90 \<and> (of_char b :: nat) = of_char a + 32) \<or>
     (65 \<le> (of_char b :: nat) \<and> (of_char b :: nat) \<le> 90 \<and> (of_char a :: nat) = of_char b + 32)"

definition equal_up_to_case :: "string \<Rightarrow> string \<Rightarrow> bool" where
  "equal_up_to_case s t \<longleftrightarrow> list_all2 same_letter s t"

text \<open>
  \<^verbatim>\<open>get_kernel_by_name\<close>: the name is lowered, compared with each alias in the order of
  the source, and an unknown name throws \<^verbatim>\<open>std::invalid_argument\<close> with the name as
  given.
\<close>

definition get_kernel_by_name :: "string \<Rightarrow> error + Kernel" where
  "get_kernel_by_name name =
     (let lower_name = map tolower name in
      if lower_name = ''box_blur'' \<or> lower_name = ''box_blur_3x3'' \<or>
         lower_name = ''blur'' \<or> lower_name = ''average'' then Inr box_blur_3x3
      else if lower_name = ''gaussian'' \<or> lower_name = ''gaussian_blur'' \<or>
         lower_name = ''gaussian_blur_3x3'' \<or> lower_name = ''gaussian_3x3''
        then Inr gaussian_blur_3x3
      else if lower_name = ''sharpen'' \<or> lower_name = ''sharpen_3x3'' then Inr sharpen_3x3
      else if lower_name = ''sharpen_strong'' \<or> lower_name = ''strong_sharpen''
        then Inr sharpen_strong_3x3
      else if lower_name = ''sobel_x'' \<or> lower_name = ''sobel_x_3x3'' \<or>
         lower_name = ''sobelx'' then Inr sobel_x_3x3
      else if lower_name = ''sobel_y'' \<or> lower_name = ''sobel_y_3x3'' \<or>
         lower_name = ''sobely'' then Inr sobel_y_3x3
      else if lower_name = ''prewitt_x'' \<or> lower_name = ''prewittx'' then Inr prewitt_x_3x3
      else if lower_name = ''prewitt_y'' \<or> lower_name = ''prewitty'' then Inr prewitt_y_3x3
      else if lower_name = ''laplacian'' \<or> lower_name = ''laplacian_3x3''
        then Inr laplacian_3x3
      else if lower_name = ''emboss'' \<or> lower_name = ''emboss_3x3'' then Inr emboss_3x3
      else if lower_name = ''identity'' \<or> lower_name = ''identity_3x3''
        then Inr identity_3x3
      else if lower_name = ''box_blur_5x5'' \<or> lower_name = ''blur_5x5''
        then Inr box_blur_5x5
      else if lower_name = ''gaussian_5x5'' \<or> lower_name = ''gaussian_blur_5x5''
        then Inr gaussian_blur_5x5
      else if lower_name = ''unsharp'' \<or> lower_name = ''unsharp_mask'' \<or>
         lower_name = ''unsharp_mask_5x5'' then Inr unsharp_mask_5x5
      else if lower_name = ''sobel_x_5x5'' then Inr sobel_x_5x5
      else if lower_name = ''sobel_y_5x5'' then Inr sobel_y_5x5
      else if lower_name = ''log'' \<or> lower_name = ''log_5x5'' \<or>
         lower_name = ''laplacian_of_gaussian'' then Inr log_5x5
      else Inl (invalid_argument (''Unknown kernel: '' @ name)))"

text \<open>Every alias the lookup accepts, in the order of the source.\<close>

definition kernel_aliases :: "string list" where
  "kernel_aliases =
     [''box_blur'', ''box_blur_3x3'', ''blur'', ''average'',
      ''gaussian'', ''gaussian_blur'', ''gaussian_blur_3x3'', ''gaussian_3x3'',
      ''sharpen'', ''sharpen_3x3'', ''sharpen_strong'', ''strong_sharpen'',
      ''sobel_x'', ''sobel_x_3x3'', ''sobelx'', ''sobel_y'', ''sobel_y_3x3'', ''sobely'',
      ''prewitt_x'', ''prewittx'', ''prewitt_y'', ''prewitty'',
      ''laplacian'', ''laplacian_3x3'', ''emboss'', ''emboss_3x3'',
      ''identity'', ''identity_3x3'',
      ''box_blur_5x5'', ''blur_5x5'', ''gaussian_5x5'', ''gaussian_blur_5x5'',
      ''unsharp'', ''unsharp_mask'', ''unsharp_mask_5x5'',
      ''sobel_x_5x5'', ''sobel_y_5x5'', ''log'', ''log_5x5'', ''laplacian_of_gaussian'']"

section \<open>The convolution engine\<close>

text \<open>The header \<^verbatim>\<open>for (int i = lo; i < hi; ++i)\<close>: the values of \<open>i\<close>, in order.\<close>

definition for_range :: "int \<Rightarrow> int \<Rightarrow> int list" where
  "for_range lo hi = [lo..hi - 1]"

text \<open>
  The two inner loops of every filter: the weighted sum over the neighbourhood of
  \<open>(x, y)\<close>, coordinates clamped to the edge, accumulated row by row of the kernel.
\<close>

definition convolve_sum :: "GrayscaleImage \<Rightarrow> Kernel \<Rightarrow> int \<Rightarrow> int \<Rightarrow> float" where
  "convolve_sum input kern x y =
     (let r = radius kern in
      fold (\<lambda>ky sum.
        fold (\<lambda>kx sum.
          let px = max 0 (min (x + kx) (width input - 1));
              py = max 0 (min (y + ky) (height input - 1));
              pixel_val = uint8_to_float (pixel input px py);
              kernel_val = kernel_at kern (kx + r) (ky + r)
          in fadd sum (fmul pixel_val kernel_val))
        [- r..r] sum)
      [- r..r] (Finite 0))"

text \<open>
  The body of the serial loop nest at \<open>(x, y)\<close>: normalise, saturate with
  \<^verbatim>\<open>std::max(0.0f, std::min(255.0f, sum))\<close>, cast and store. The saturated value is
  in \<open>[0, 255]\<close> whatever the sum is (255 for NaN), so the cast is defined.
\<close>

definition serial_pixel :: "GrayscaleImage \<Rightarrow> Kernel \<Rightarrow> int \<times> int \<Rightarrow> GrayscaleImage \<Rightarrow> GrayscaleImage" where
  "serial_pixel input kern = (\<lambda>(x, y) output.
     let sum = convolve_sum input kern x y;
         sum = fdiv sum (divisor kern);
         sum = std_max (Finite 0) (std_min (Finite 255) sum)
     in set_pixel output x y (static_cast_uint8 sum))"

definition apply_filter_serial :: "GrayscaleImage \<Rightarrow> Kernel \<Rightarrow> GrayscaleImage" where
  "apply_filter_serial input kern =
     fold (\<lambda>y output.
         fold (\<lambda>x output. serial_pixel input kern (x, y) output)
           (for_range 0 (width input)) output)
       (for_range 0 (height input))
       (new_image (width input) (height input) 255)"

text \<open>
  The body of the parallel and of the tiled loop nests at \<open>(x, y)\<close>:
  \<^verbatim>\<open>static_cast<uint8_t>(std::clamp(sum / kernel.divisor, 0.0f, 255.0f))\<close>.
  \<^verbatim>\<open>std::clamp\<close> returns NaN for NaN, and the cast of NaN is undefined behaviour: the
  state of these loops is the output buffer, or \<open>None\<close> once the behaviour of the
  program is undefined.
\<close>

definition parallel_pixel ::
  "GrayscaleImage \<Rightarrow> Kernel \<Rightarrow> int \<times> int \<Rightarrow> GrayscaleImage option \<Rightarrow> GrayscaleImage option" where
  "parallel_pixel input kern = (\<lambda>(x, y) output.
     let sum = convolve_sum input kern x y;
         clamped = std_clamp (fdiv sum (divisor kern)) (Finite 0) (Finite 255)
     in if cast_defined clamped
        then map_option (\<lambda>output. set_pixel output x y (static_cast_uint8 clamped)) output
        else None)"

text \<open>
  \<^verbatim>\<open>#pragma omp parallel for schedule(kind, chunk)\<close>. The units of work of a loop nest
  are the pixel computations \<open>(x, y)\<close>; \<open>iterations\<close> lists them in program order, one
  list per iteration of the parallel loop. Which thread runs an iteration, in which
  order and interleaved with which others is the choice of the OpenMP runtime, and it
  may depend on the size of the team (\<open>None\<close>: the default), the schedule kind and
  the chunk size (\<open>None\<close>: no chunk given). A runtime is therefore a function from
  these and the iterations to an execution: the sequence in which the units of work
  take effect. The loop applies its body along the execution.
\<close>

type_synonym 'a omp_runtime = "int option \<Rightarrow> Schedule \<Rightarrow> int option \<Rightarrow> 'a list list \<Rightarrow> 'a list"

definition omp_parallel_for ::
  "'a omp_runtime \<Rightarrow> int option \<Rightarrow> Schedule \<Rightarrow> int option \<Rightarrow> 'a list list \<Rightarrow>
     ('a \<Rightarrow> 's \<Rightarrow> 's) \<Rightarrow> 's \<Rightarrow> 's" where
  "omp_parallel_for runtime team kind chunk iterations body s =
     fold body (runtime team kind chunk iterations) s"

text \<open>
  What OpenMP promises of a worksharing loop: every iteration is run exactly once. An
  execution is a rearrangement of the program order, and a runtime conforms on a loop
  when it produces one for every team size, schedule kind and chunk size.
\<close>

definition omp_execution :: "'a list list \<Rightarrow> 'a list \<Rightarrow> bool" where
  "omp_execution iterations exec \<longleftrightarrow> mset exec = mset (concat iterations)"

definition omp_conforming :: "'a omp_runtime \<Rightarrow> 'a list list \<Rightarrow> bool" where
  "omp_conforming runtime iterations \<longleftrightarrow>
     (\<forall>team kind chunk. omp_execution iterations (runtime team kind chunk iterations))"

text \<open>\<^verbatim>\<open>if (config.num_threads > 0) omp_set_num_threads(config.num_threads)\<close>: the team
  size the following parallel region gets.\<close>

definition team_size :: "FilterConfig \<Rightarrow> int option" where
  "team_size config = (if num_threads config > 0 then Some (num_threads config) else None)"

text \<open>The iterations of \<^verbatim>\<open>for (int y = 0; y < input.height; ++y)\<close>, each with its
  inner loop over \<open>x\<close>.\<close>

definition row_iterations :: "GrayscaleImage \<Rightarrow> (int \<times> int) list list" where
  "row_iterations input =
     map (\<lambda>y. map (\<lambda>x. (x, y)) (for_range 0 (width input))) (for_range 0 (height input))"

text \<open>
  \<^verbatim>\<open>apply_filter_parallel\<close>: six copies of one loop nest, chosen by the schedule and
  by \<^verbatim>\<open>chunk_size > 0\<close>, each under its own schedule clause. The result is the
  buffer returned, or \<open>None\<close> when the behaviour of the call is undefined.
\<close>

definition apply_filter_parallel ::
  "GrayscaleImage \<Rightarrow> Kernel \<Rightarrow> FilterConfig \<Rightarrow> (int \<times> int) omp_runtime \<Rightarrow>
     GrayscaleImage option" where
  "apply_filter_parallel input kern config runtime =
     (let output = Some (new_image (width input) (height input) 255);
          team = team_size config
      in case schedule config of
        STATIC \<Rightarrow>
          if chunk_size config > 0
          then omp_parallel_for runtime team STATIC (Some (chunk_size config))
                 (row_iterations input) (parallel_pixel input kern) output
          else omp_parallel_for runtime team STATIC None
                 (row_iterations input) (parallel_pixel input kern) output
      | DYNAMIC \<Rightarrow>
          if chunk_size config > 0
          then omp_parallel_for runtime team DYNAMIC (Some (chunk_size config))
                 (row_iterations input) (parallel_pixel input kern) output
          else omp_parallel_for runtime team DYNAMIC None
                 (row_iterations input) (parallel_pixel input kern) output
      | GUIDED \<Rightarrow>
          if chunk_size config > 0
          then omp_parallel_for runtime team GUIDED (Some (chunk_size config))
                 (row_iterations input) (parallel_pixel input kern) output
          else omp_parallel_for runtime team GUIDED None
                 (row_iterations input) (parallel_pixel input kern) output)"

text \<open>
  \<^verbatim>\<open>apply_filter_tiled\<close>: the iterations of the loop over \<open>tile_idx\<close>, each with the
  pixels of its tile in the order of the two loops inside, run under
  \<^verbatim>\<open>schedule(dynamic)\<close>.
\<close>

definition tile_iterations :: "GrayscaleImage \<Rightarrow> FilterConfig \<Rightarrow> (int \<times> int) list list" where
  "tile_iterations input config =
     (let tile_size = tile_size config;
          num_tiles_y = (height input + tile_size - 1) sdiv tile_size;
          num_tiles_x = (width input + tile_size - 1) sdiv tile_size;
          total_tiles = num_tiles_x * num_tiles_y
      in map (\<lambda>tile_idx.
           let tile_y = tile_idx sdiv num_tiles_x;
               tile_x = tile_idx smod num_tiles_x;
               y_start = tile_y * tile_size;
               y_end = min (y_start + tile_size) (height input);
               x_start = tile_x * tile_size;
               x_end = min (x_start + tile_size) (width input)
           in concat (map (\<lambda>y. map (\<lambda>x. (x, y)) (for_range x_start x_end))
                        (for_range y_start y_end)))
         (for_range 0 total_tiles))"

definition apply_filter_tiled ::
  "GrayscaleImage \<Rightarrow> Kernel \<Rightarrow> FilterConfig \<Rightarrow> (int \<times> int) omp_runtime \<Rightarrow>
     GrayscaleImage option" where
  "apply_filter_tiled input kern config runtime =
     (let output = Some (new_image (width input) (height input) 255);
          team = team_size config
      in omp_parallel_for runtime team DYNAMIC None
           (tile_iterations input config) (parallel_pixel input kern) output)"

text \<open>
  The bounds under which no \<^verbatim>\<open>int\<close> expression of the filters overflows: the
  neighbour coordinates \<open>x + kx\<close> and \<open>y + ky\<close> (at most \<open>width - 1 + radius\<close> and
  \<open>height - 1 + radius\<close>), and for the tiled filter the sums \<open>height + tile_size\<close> and
  \<open>width + tile_size\<close> of the rounded-up divisions, which also bound the tile ends.
\<close>

definition filter_in_range :: "GrayscaleImage \<Rightarrow> Kernel \<Rightarrow> bool" where
  "filter_in_range input kern \<longleftrightarrow>
     width input - 1 + radius kern \<le> INT_MAX \<and> height input - 1 + radius kern \<le> INT_MAX"

definition tiles_in_range :: "GrayscaleImage \<Rightarrow> FilterConfig \<Rightarrow> bool" where
  "tiles_in_range input config \<longleftrightarrow>
     1 \<le> tile_size config \<and>
     width input + tile_size config \<le> INT_MAX \<and> height input + tile_size config \<le> INT_MAX"

subsection \<open>Sobel edge detection\<close>

text \<open>The gradients and the magnitude are \<open>real\<close> here (see the data model); the
  cast of the magnitude, saturated from above, is \<open>float_to_uint8\<close>.\<close>

definition sobel_x :: "int list list" where
  "sobel_x = [[-1, 0, 1], [-2, 0, 2], [-1, 0, 1]]"

definition sobel_y :: "int list list" where
  "sobel_y = [[-1, -2, -1], [0, 0, 0], [1, 2, 1]]"

definition sobel_gradient :: "GrayscaleImage \<Rightarrow> int \<Rightarrow> int \<Rightarrow> real \<times> real" where
  "sobel_gradient input x y =
     fold (\<lambda>ky g.
        fold (\<lambda>kx (gx, gy).
          let px = max 0 (min (x + kx) (width input - 1));
              py = max 0 (min (y + ky) (height input - 1));
              pixel_val = real (unat (pixel input px py))
          in (gx + pixel_val * real_of_int (sobel_x ! nat (ky + 1) ! nat (kx + 1)),
              gy + pixel_val * real_of_int (sobel_y ! nat (ky + 1) ! nat (kx + 1))))
        [-1..1] g)
      [-1..1] (0, 0)"

definition sobel_pixel :: "GrayscaleImage \<Rightarrow> int \<times> int \<Rightarrow> GrayscaleImage \<Rightarrow> GrayscaleImage" where
  "sobel_pixel input = (\<lambda>(x, y) output.
     let (gx, gy) = sobel_gradient input x y;
         magnitude = sqrt (gx * gx + gy * gy)
     in set_pixel output x y (float_to_uint8 (min 255 magnitude)))"

definition sobel_edge_detection_serial :: "GrayscaleImage \<Rightarrow> GrayscaleImage" where
  "sobel_edge_detection_serial input =
     fold (\<lambda>y output.
         fold (\<lambda>x output. sobel_pixel input (x, y) output)
           (for_range 0 (width input)) output)
       (for_range 0 (height input))
       (new_image (width input) (height input) 255)"

definition sobel_edge_detection_parallel ::
  "GrayscaleImage \<Rightarrow> FilterConfig \<Rightarrow> (int \<times> int) omp_runtime \<Rightarrow> GrayscaleImage" where
  "sobel_edge_detection_parallel input config runtime =
     (let output = new_image (width input) (height input) 255;
          team = team_size config
      in omp_parallel_for runtime team STATIC None
           (row_iterations input) (sobel_pixel input) output)"

subsection \<open>Filter chains\<close>

text \<open>The loop of \<^verbatim>\<open>apply_filter_chain_serial\<close>; a failed lookup throws out of it.\<close>

fun chain_loop :: "GrayscaleImage \<Rightarrow> string list \<Rightarrow> error + GrayscaleImage" where
  "chain_loop current [] = Inr current"
| "chain_loop current (name # names) =
     (case get_kernel_by_name name of
        Inl e \<Rightarrow> Inl e
      | Inr k \<Rightarrow> chain_loop (apply_filter_serial current k) names)"

definition apply_filter_chain_serial :: "GrayscaleImage \<Rightarrow> string list \<Rightarrow> error + GrayscaleImage" where
  "apply_filter_chain_serial input kernel_names =
     (if kernel_names = [] then Inr input else chain_loop input kernel_names)"

section \<open>The reduction engine\<close>

text \<open>
  A worksharing loop \<^verbatim>\<open>for (size_t i = 0; i < n; ++i)\<close> inside a parallel region. How
  its iterations go to the threads is the choice of the OpenMP runtime: a team maps
  the number \<open>n\<close> of iterations to the list, for each of its threads, of the iterations
  that thread ran, in the order it ran them. Every iteration is run once, by one
  thread.
\<close>

type_synonym omp_team = "nat \<Rightarrow> nat list list"

definition omp_partition :: "nat \<Rightarrow> nat list list \<Rightarrow> bool" where
  "omp_partition n threads \<longleftrightarrow> mset (concat threads) = mset [0..<n]"

text \<open>The team of a single worker: one thread runs every iteration, in order. The
  parallel region is then the serial computation.\<close>

definition single_worker :: omp_team where
  "single_worker n = [[0..<n]]"

text \<open>The largest finite \<^verbatim>\<open>double\<close>: the initial value of a thread's private copy in a
  \<^verbatim>\<open>min\<close> reduction; its negation is the one of a \<^verbatim>\<open>max\<close> reduction.\<close>

definition DBL_MAX :: real where
  "DBL_MAX = 2 ^ 1024 - 2 ^ 971"

record Statistics =
  min_val_out :: real
  max_val_out :: real
  mean_out :: real
  variance_out :: real

text \<open>One iteration of the loop of \<^verbatim>\<open>compute_statistics_parallel\<close>, on the accumulators
  \<open>(sum, sum_sq, local_min, local_max)\<close>.\<close>

definition statistics_step :: "GrayscaleImage \<Rightarrow> nat \<Rightarrow> real \<times> real \<times> real \<times> real \<Rightarrow> real \<times> real \<times> real \<times> real" where
  "statistics_step img i = (\<lambda>(sum, sum_sq, local_min, local_max).
     let val = real (unat (data img ! i))
     in (sum + val, sum_sq + val * val,
         (if val < local_min then val else local_min),
         (if val > local_max then val else local_max)))"

text \<open>The reduction clause: a thread's private copies are combined into the shared
  variables with \<open>+\<close>, \<open>+\<close>, \<open>min\<close> and \<open>max\<close>.\<close>

definition statistics_combine :: "real \<times> real \<times> real \<times> real \<Rightarrow> real \<times> real \<times> real \<times> real \<Rightarrow> real \<times> real \<times> real \<times> real" where
  "statistics_combine = (\<lambda>(s, q, lo, hi) (sum, sum_sq, local_min, local_max).
     (sum + s, sum_sq + q, min local_min lo, max local_max hi))"

definition compute_statistics_parallel :: "GrayscaleImage \<Rightarrow> omp_team \<Rightarrow> Statistics" where
  "compute_statistics_parallel img team =
     (let n = length (data img) in
      if n = 0 then \<lparr>min_val_out = 0, max_val_out = 0, mean_out = 0, variance_out = 0\<rparr>
      else
        let partials = map (\<lambda>part. fold (statistics_step img) part (0, 0, DBL_MAX, - DBL_MAX))
                         (team n);
            (sum, sum_sq, local_min, local_max) = fold statistics_combine partials (0, 0, 255, 0);
            mean = sum / real n
        in \<lparr>min_val_out = local_min, max_val_out = local_max, mean_out = mean,
            variance_out = (sum_sq / real n) - (mean * mean)\<rparr>)"

text \<open>
  \<^verbatim>\<open>compute_histogram_parallel\<close>: every thread counts its iterations into a private
  \<open>local_hist\<close>; the critical section adds it, bin by bin, to the shared histogram.
  The team lists its threads in the order in which they enter the critical section.
\<close>

definition compute_histogram_parallel :: "GrayscaleImage \<Rightarrow> omp_team \<Rightarrow> int list" where
  "compute_histogram_parallel img team =
     (let n = length (data img);
          local_hists =
            map (\<lambda>part.
                  fold (\<lambda>i local_hist.
                          local_hist[unat (data img ! i) := local_hist ! unat (data img ! i) + 1])
                    part (replicate 256 0))
              (team n)
      in fold (\<lambda>local_hist histogram.
                 fold (\<lambda>i histogram. histogram[i := histogram ! i + local_hist ! i])
                   [0..<256] histogram)
           local_hists (replicate 256 0))"

section \<open>Notions used in the proofs\<close>

text \<open>A pixel store whose value depends on the coordinates only.\<close>

definition store_with :: "(int \<times> int \<Rightarrow> uint8) \<Rightarrow> int \<times> int \<Rightarrow> GrayscaleImage \<Rightarrow> GrayscaleImage" where
  "store_with g c output = set_pixel output (fst c) (snd c) (g c)"

text \<open>The offset of a coordinate pair in a buffer of width \<open>w\<close>, and back.\<close>

definition offset_of :: "int \<Rightarrow> int \<times> int \<Rightarrow> nat" where
  "offset_of w c = nat (snd c * w + fst c)"

definition coord_of :: "int \<Rightarrow> nat \<Rightarrow> int \<times> int" where
  "coord_of w i = (int i mod w, int i div w)"

definition in_columns :: "int \<Rightarrow> int \<times> int \<Rightarrow> bool" where
  "in_columns w c \<longleftrightarrow> 0 \<le> fst c \<and> fst c < w \<and> 0 \<le> snd c"

text \<open>The coordinates of an image.\<close>

definition grid :: "GrayscaleImage \<Rightarrow> (int \<times> int) set" where
  "grid input = {0..<width input} \<times> {0..<height input}"

text \<open>The normalised sum at a coordinate pair, the sample the serial loop body stores
  there, and the one the parallel and tiled loop bodies store there.\<close>

definition normalised_sum :: "GrayscaleImage \<Rightarrow> Kernel \<Rightarrow> int \<times> int \<Rightarrow> float" where
  "normalised_sum input kern c = fdiv (convolve_sum input kern (fst c) (snd c)) (divisor kern)"

definition filter_value :: "GrayscaleImage \<Rightarrow> Kernel \<Rightarrow> int \<times> int \<Rightarrow> uint8" where
  "filter_value input kern c =
     static_cast_uint8 (std_max (Finite 0) (std_min (Finite 255) (normalised_sum input kern c)))"

definition clamped_value :: "GrayscaleImage \<Rightarrow> Kernel \<Rightarrow> int \<times> int \<Rightarrow> uint8" where
  "clamped_value input kern c =
     static_cast_uint8 (std_clamp (normalised_sum input kern c) (Finite 0) (Finite 255))"

text \<open>The offsets \<open>(kx, ky)\<close> of the two inner loops, in the order they run.\<close>

definition kernel_offsets :: "int \<Rightarrow> (int \<times> int) list" where
  "kernel_offsets r = concat (map (\<lambda>ky. map (\<lambda>kx. (kx, ky)) [- r..r]) [- r..r])"

text \<open>
  The number a finite \<^verbatim>\<open>float\<close> stands for. A kernel has integer weights of small mass
  when every weight is an integer and 255 times the sum of their magnitudes is below
  \<open>2^24\<close>: then every product and every partial sum of the accumulation is an integer
  below \<open>2^24\<close> in magnitude, which \<^verbatim>\<open>float\<close> represents, and no operation of the
  accumulation rounds. An integer divisor is one from 1 to \<open>2^16\<close>. Every kernel of
  the catalogue has such weights and such a divisor.
\<close>

definition value_of :: "float \<Rightarrow> real" where
  "value_of f = (case f of Finite v \<Rightarrow> v | _ \<Rightarrow> 0)"

definition is_integer :: "float \<Rightarrow> bool" where
  "is_integer f = (case f of Finite v \<Rightarrow> v = of_int \<lfloor>v\<rfloor> | _ \<Rightarrow> False)"

definition integer_weights :: "Kernel \<Rightarrow> bool" where
  "integer_weights kern \<longleftrightarrow>
     list_all is_integer (data_k kern) \<and>
     255 * sum_list (map (\<lambda>w. \<bar>value_of w\<bar>) (data_k kern)) < 2 ^ 24"

definition integer_divisor :: "Kernel \<Rightarrow> bool" where
  "integer_divisor kern \<longleftrightarrow>
     is_integer (divisor kern) \<and> 1 \<le> value_of (divisor kern) \<and> value_of (divisor kern) \<le> 2 ^ 16"

text \<open>The sample the Sobel loop body stores at a coordinate pair.\<close>

definition sobel_value :: "GrayscaleImage \<Rightarrow> int \<times> int \<Rightarrow> uint8" where
  "sobel_value input c =
     (let (gx, gy) = sobel_gradient input (fst c) (snd c)
      in float_to_uint8 (min 255 (sqrt (gx * gx + gy * gy))))"

text \<open>The samples of an image as numbers, and the one at an index.\<close>

definition samples :: "GrayscaleImage \<Rightarrow> real list" where
  "samples img = map (\<lambda>v. real (unat v)) (data img)"

definition sample_at :: "GrayscaleImage \<Rightarrow> nat \<Rightarrow> real" where
  "sample_at img i = real (unat (data img ! i))"

section \<open>The contract of the convolution engine, in the words of the specification\<close>

text \<open>
  Section 4.1 of the specification: for every output coordinate \<open>(x, y)\<close> the sum over
  \<open>(kx, ky)\<close> in \<open>[-radius, radius]\<^sup>2\<close> of
  \<open>input[clamp(x+kx), clamp(y+ky)] * kernel[kx+radius, ky+radius]\<close>, where \<open>clamp\<close>
  saturates a coordinate to \<open>[0, dimension - 1]\<close>; the sum is divided by the
  divisor, saturated to \<open>[0, max_value]\<close> and stored as the output sample. The
  bound \<open>max_value\<close> is a parameter here, and the arithmetic is that of the real
  numbers.
\<close>

definition spec_clamp :: "int \<Rightarrow> int \<Rightarrow> int" where
  "spec_clamp v dimension = max 0 (min v (dimension - 1))"

definition spec_weighted_sum :: "GrayscaleImage \<Rightarrow> Kernel \<Rightarrow> int \<Rightarrow> int \<Rightarrow> real" where
  "spec_weighted_sum input kern x y =
     (\<Sum>ky = - radius kern..radius kern. \<Sum>kx = - radius kern..radius kern.
        real (unat (pixel input (spec_clamp (x + kx) (width input)) (spec_clamp (y + ky) (height input)))) *
        value_of (kernel_at kern (kx + radius kern) (ky + radius kern)))"

definition spec_filter_sample :: "GrayscaleImage \<Rightarrow> Kernel \<Rightarrow> real \<Rightarrow> int \<Rightarrow> int \<Rightarrow> uint8" where
  "spec_filter_sample input kern max_value x y =
     float_to_uint8
       (max 0 (min max_value (spec_weighted_sum input kern x y / value_of (divisor kern))))"

section \<open>Concrete inputs\<close>

definition image_2x2 :: GrayscaleImage where
  "image_2x2 = \<lparr>width = 2, height = 2, max_val = 255, data = [10, 20, 30, 40]\<rparr>"

text \<open>A runtime that runs every unit of work in reverse order under \<open>STATIC\<close>, the
  iterations in reverse order under \<open>DYNAMIC\<close>, and the iterations in order but each
  of them backwards under \<open>GUIDED\<close>.\<close>

definition example_runtime :: "(int \<times> int) omp_runtime" where
  "example_runtime team kind chunk iterations =
     (case kind of
        STATIC \<Rightarrow> rev (concat iterations)
      | DYNAMIC \<Rightarrow> concat (rev iterations)
      | GUIDED \<Rightarrow> concat (map rev iterations))"

text \<open>A team of two threads, one running the even iterations and the other the odd
  ones; the second is first in the critical section.\<close>

definition example_team :: omp_team where
  "example_team n = [filter odd [0..<n], filter even [0..<n]]"

definition config_dynamic_tiled :: FilterConfig where
  "config_dynamic_tiled =
     \<lparr>num_threads = 2, schedule = DYNAMIC, chunk_size = 1, use_tiling = True, tile_size = 1\<rparr>"

definition image_max100 :: GrayscaleImage where
  "image_max100 = \<lparr>width = 2, height = 1, max_val = 100, data = [100, 0]\<rparr>"

text \<open>A kernel whose products overflow: the accumulation reaches \<open>+\<infinity>\<close>, then
  \<open>+\<infinity> + (-\<infinity>)\<close>, which is NaN.\<close>

definition image_1x1 :: "uint8 \<Rightarrow> GrayscaleImage" where
  "image_1x1 v = \<lparr>width = 1, height = 1, max_val = 255, data = [v]\<rparr>"

definition kernel_overflow :: Kernel where
  "kernel_overflow = \<lparr>data_k = map Finite [2 ^ 127, 0, 0,
                                            0, 0, 0,
                                            0, 0, - (2 ^ 127)],
                       size_k = 3, divisor = Finite 1, name_k = ''Overflow''\<rparr>"

text \<open>A kernel whose weights sum to its divisor 1, and whose second weight is lost in
  the accumulation: \<open>2^24 + 1\<close> rounds to \<open>2^24\<close>.\<close>

definition kernel_absorb :: Kernel where
  "kernel_absorb = \<lparr>data_k = map Finite [2 ^ 24, 1, - (2 ^ 24),
                                          0, 0, 0,
                                          0, 0, 0],
                     size_k = 3, divisor = Finite 1, name_k = ''Absorb''\<rparr>"

text \<open>The 1x1 kernel whose weight and divisor are both the \<^verbatim>\<open>float\<close> nearest to
  \<open>1/7\<close>.\<close>

definition kernel_seventh :: Kernel where
  "kernel_seventh = \<lparr>data_k = [Finite (9586981 / 67108864)],
                      size_k = 1, divisor = Finite (9586981 / 67108864), name_k = ''Seventh''\<rparr>"

definition image_4x4_flat :: GrayscaleImage where
  "image_4x4_flat = \<lparr>width = 4, height = 4, max_val = 255, data = replicate 16 100\<rparr>"

definition image_8x8_flat :: GrayscaleImage where
  "image_8x8_flat = \<lparr>width = 8, height = 8, max_val = 255, data = replicate 64 77\<rparr>"

definition image_10 :: GrayscaleImage where
  "image_10 = \<lparr>width = 10, height = 1, max_val = 255, data = [0, 0, 0, 0, 0, 0, 0, 0, 0, 255]\<rparr>"

definition image_stats :: GrayscaleImage where
  "image_stats = \<lparr>width = 4, height = 1, max_val = 255, data = [0, 10, 20, 30]\<rparr>"

definition image_empty :: GrayscaleImage where
  "image_empty = \<lparr>width = 0, height = 0, max_val = 255, data = []\<rparr>"

section \<open>The kernel registry: lookup by name\<close>

lemma tolower_idem: "tolower (tolower c) = tolower c"
proof (cases "65 \<le> (of_char c :: nat) \<and> (of_char c :: nat) \<le> 90")
  case True
  then have "(of_char (char_of (of_char c + 32 :: nat)) :: nat) = of_char c + 32"
    by (simp add: of_char_of)
  with True show ?thesis
    by (simp add: tolower_def Let_def)
next
  case False
  then have "tolower c = c"
    by (auto simp add: tolower_def Let_def)
  then show ?thesis by simp
qed

lemma map_tolower_idem: "map tolower (map tolower s) = map tolower s"
  by (simp add: tolower_idem)

lemma get_kernel_by_name_lowered:
  "get_kernel_by_name name =
     (case get_kernel_by_name (map tolower name) of
        Inl e \<Rightarrow> Inl (invalid_argument (''Unknown kernel: '' @ name))
      | Inr k \<Rightarrow> Inr k)"
  unfolding get_kernel_by_name_def Let_def map_tolower_idem
  by simp

lemma get_kernel_by_name_fails_iff:
  "isl (get_kernel_by_name name) \<longleftrightarrow> map tolower name \<notin> set kernel_aliases"
  unfolding get_kernel_by_name_def Let_def kernel_aliases_def
  by simp

lemma get_kernel_by_name_not_a_filter:
  "get_kernel_by_name ''not_a_filter'' =
     Inl (invalid_argument ''Unknown kernel: not_a_filter'')"
  by code_simp

lemma tolower_upper:
  assumes "65 \<le> (of_char a :: nat)" and "(of_char a :: nat) \<le> 90"
    and "(of_char b :: nat) = of_char a + 32"
  shows "tolower a = tolower b"
proof -
  have "char_of (of_char b :: nat) = b" by simp
  then have b: "b = char_of (of_char a + 32 :: nat)" by (simp only: assms(3))
  have "tolower a = char_of (of_char a + 32 :: nat)"
    using assms(1,2) by (simp add: tolower_def Let_def)
  moreover have "tolower b = b"
    using assms by (simp add: tolower_def Let_def)
  ultimately show ?thesis using b by simp
qed

lemma same_letter_tolower:
  assumes "same_letter a b"
  shows "tolower a = tolower b"
proof -
  from assms consider "a = b"
    | "65 \<le> (of_char a :: nat) \<and> (of_char a :: nat) \<le> 90 \<and> (of_char b :: nat) = of_char a + 32"
    | "65 \<le> (of_char b :: nat) \<and> (of_char b :: nat) \<le> 90 \<and> (of_char a :: nat) = of_char b + 32"
    unfolding same_letter_def by blast
  then show ?thesis
  proof cases
    case 1
    then show ?thesis by (rule arg_cong)
  next
    case 2
    then show ?thesis using tolower_upper [of a b] by blast
  next
    case 3
    then have "tolower b = tolower a" using tolower_upper [of b a] by blast
    then show ?thesis by (rule sym)
  qed
qed

lemma equal_up_to_case_tolower: "equal_up_to_case s t \<Longrightarrow> map tolower s = map tolower t"
  unfolding equal_up_to_case_def
  by (induction rule: list_all2_induct) (simp_all add: same_letter_tolower)

lemma get_kernel_by_name_cong:
  assumes "map tolower s = map tolower t"
  shows "get_kernel_by_name s = Inr k \<longleftrightarrow> get_kernel_by_name t = Inr k"
  using get_kernel_by_name_lowered [of s] get_kernel_by_name_lowered [of t] assms
  by (simp split: sum.splits)

lemma tolower_alphabet:
  "map tolower ''ABCDEFGHIJKLMNOPQRSTUVWXYZ'' = ''abcdefghijklmnopqrstuvwxyz''"
  "map tolower ''az_09 @[`{'' = ''az_09 @[`{''"
  by code_simp+

lemma get_kernel_by_name_mixed_case:
  "get_kernel_by_name ''BLUR'' = Inr box_blur_3x3"
  "get_kernel_by_name ''blur'' = Inr box_blur_3x3"
  "get_kernel_by_name ''Gaussian_Blur_5x5'' = Inr gaussian_blur_5x5"
  "get_kernel_by_name ''LoG'' = Inr log_5x5"
  by code_simp+

text \<open>
  Claim C7. The lookup is case-insensitive. \<^verbatim>\<open>tolower\<close> takes the upper-case letters
  to the lower-case ones and leaves every other character. For every name the lookup
  returns the kernel that the lookup of the lowered name returns, and fails exactly
  when that one fails; two names that differ in case only get the same kernel, or
  none; \<open>BLUR\<close> and \<open>blur\<close> both get the 3x3 box blur. The lookup fails exactly for the
  names whose lowered form is none of the aliases, and then with the exception
  \<open>invalid_argument\<close> carrying the name as given: a value \<open>Inl e\<close>, which no successful
  lookup \<open>Inr k\<close> equals. The name \<open>not_a_filter\<close> is such a name.
\<close>

theorem get_kernel_by_name_case_insensitive:
  "get_kernel_by_name name =
     (case get_kernel_by_name (map tolower name) of
        Inl e \<Rightarrow> Inl (invalid_argument (''Unknown kernel: '' @ name))
      | Inr k \<Rightarrow> Inr k)
   \<and> map tolower ''ABCDEFGHIJKLMNOPQRSTUVWXYZ'' = ''abcdefghijklmnopqrstuvwxyz''
   \<and> map tolower ''az_09 @[`{'' = ''az_09 @[`{''
   \<and> (equal_up_to_case name other \<longrightarrow>
        (\<forall>k. get_kernel_by_name name = Inr k \<longleftrightarrow> get_kernel_by_name other = Inr k) \<and>
        (isl (get_kernel_by_name name) \<longleftrightarrow> isl (get_kernel_by_name other)))
   \<and> get_kernel_by_name ''BLUR'' = Inr box_blur_3x3
   \<and> get_kernel_by_name ''blur'' = Inr box_blur_3x3
   \<and> get_kernel_by_name ''Gaussian_Blur_5x5'' = Inr gaussian_blur_5x5
   \<and> get_kernel_by_name ''LoG'' = Inr log_5x5
   \<and> (isl (get_kernel_by_name name) \<longleftrightarrow> map tolower name \<notin> set kernel_aliases)
   \<and> (isl (get_kernel_by_name name) \<longleftrightarrow>
        get_kernel_by_name name = Inl (invalid_argument (''Unknown kernel: '' @ name)))
   \<and> get_kernel_by_name ''not_a_filter'' =
        Inl (invalid_argument ''Unknown kernel: not_a_filter'')"
proof -
  have "isl (get_kernel_by_name name) \<longleftrightarrow>
        get_kernel_by_name name = Inl (invalid_argument (''Unknown kernel: '' @ name))"
    unfolding get_kernel_by_name_def Let_def by simp
  moreover have "(\<forall>k. get_kernel_by_name name = Inr k \<longleftrightarrow> get_kernel_by_name other = Inr k) \<and>
        (isl (get_kernel_by_name name) \<longleftrightarrow> isl (get_kernel_by_name other))"
    if "equal_up_to_case name other"
    using get_kernel_by_name_cong [OF equal_up_to_case_tolower [OF that]]
      get_kernel_by_name_fails_iff [of name] get_kernel_by_name_fails_iff [of other]
      equal_up_to_case_tolower [OF that]
    by simp
  ultimately show ?thesis
    using get_kernel_by_name_lowered [of name] get_kernel_by_name_fails_iff [of name]
      get_kernel_by_name_not_a_filter tolower_alphabet get_kernel_by_name_mixed_case
    by blast
qed

theorem get_kernel_by_name_case_insensitive_witness:
  "equal_up_to_case ''SoBeL_x_3X3'' ''sObEl_X_3x3'' \<and>
   get_kernel_by_name ''SoBeL_x_3X3'' = Inr sobel_x_3x3 \<and>
   get_kernel_by_name ''sObEl_X_3x3'' = Inr sobel_x_3x3 \<and>
   \<not> isl (get_kernel_by_name ''sObEl_X_3x3'')"
proof -
  have h: "equal_up_to_case ''SoBeL_x_3X3'' ''sObEl_X_3x3''" by code_simp
  have v: "get_kernel_by_name ''SoBeL_x_3X3'' = Inr sobel_x_3x3" by code_simp
  note t = get_kernel_by_name_case_insensitive [of "''SoBeL_x_3X3''" "''sObEl_X_3x3''"]
  from t h have "\<forall>k. get_kernel_by_name ''SoBeL_x_3X3'' = Inr k \<longleftrightarrow>
      get_kernel_by_name ''sObEl_X_3x3'' = Inr k" by blast
  with v have w: "get_kernel_by_name ''sObEl_X_3x3'' = Inr sobel_x_3x3" by blast
  then have "\<not> isl (get_kernel_by_name ''sObEl_X_3x3'')" by simp
  with h v w show ?thesis by (intro conjI)
qed

section \<open>Stores into the output buffer\<close>

lemma coord_of_offset: "in_columns w c \<Longrightarrow> coord_of w (offset_of w c) = c"
proof -
  assume a: "in_columns w c"
  obtain x y where c: "c = (x, y)" by (cases c)
  from a c have x: "0 \<le> x" "x < w" and y: "0 \<le> y" by (simp_all add: in_columns_def)
  then have "0 \<le> y * w + x" by simp
  moreover have "(y * w + x) mod w = x" using x by simp
  moreover have "(y * w + x) div w = y" using x by simp
  ultimately show ?thesis by (simp add: coord_of_def offset_of_def c)
qed

lemma store_with_fields [simp]:
  "width (store_with g c out) = width out"
  "height (store_with g c out) = height out"
  "max_val (store_with g c out) = max_val out"
  "length (data (store_with g c out)) = length (data out)"
  by (simp_all add: store_with_def set_pixel_def)

lemma fold_store_fields [simp]:
  "width (fold (store_with g) cs out) = width out"
  "height (fold (store_with g) cs out) = height out"
  "max_val (fold (store_with g) cs out) = max_val out"
  "length (data (fold (store_with g) cs out)) = length (data out)"
  by (induction cs arbitrary: out; simp)+

lemma data_store_with:
  "data (store_with g c out) = (data out)[offset_of (width out) c := g c]"
  by (simp add: store_with_def set_pixel_def offset_of_def)

lemma fold_store_nth:
  assumes "\<forall>c \<in> set cs. in_columns (width out) c" and "i < length (data out)"
  shows "data (fold (store_with g) cs out) ! i =
           (if i \<in> offset_of (width out) ` set cs then g (coord_of (width out) i) else data out ! i)"
  using assms
proof (induction cs arbitrary: out)
  case Nil
  then show ?case by simp
next
  case (Cons c cs)
  let ?out = "store_with g c out"
  have ih: "data (fold (store_with g) cs ?out) ! i =
      (if i \<in> offset_of (width out) ` set cs then g (coord_of (width out) i) else data ?out ! i)"
    using Cons.IH [of ?out] Cons.prems by simp
  have c: "coord_of (width out) (offset_of (width out) c) = c"
    using Cons.prems by (simp add: coord_of_offset)
  show ?case
  proof (cases "i = offset_of (width out) c")
    case True
    with ih c Cons.prems show ?thesis
      by (simp add: data_store_with)
  next
    case False
    with ih show ?thesis
      by (simp add: data_store_with)
  qed
qed

lemma image_eqI2: "width a = width b \<Longrightarrow> height a = height b \<Longrightarrow> max_val a = max_val b \<Longrightarrow> data a = data b \<Longrightarrow> (a :: GrayscaleImage) = b"
  by simp

lemma fold_store_cong:
  assumes "\<forall>c \<in> set cs. in_columns (width out) c" and "set cs = set ds"
    and "\<And>c. c \<in> set cs \<Longrightarrow> g c = h c"
  shows "fold (store_with g) cs out = fold (store_with h) ds out"
proof (rule image_eqI2)
  show "data (fold (store_with g) cs out) = data (fold (store_with h) ds out)"
  proof (rule nth_equalityI)
    fix i assume "i < length (data (fold (store_with g) cs out))"
    then have i: "i < length (data out)" by simp
    have ds: "\<forall>c \<in> set ds. in_columns (width out) c" using assms by simp
    have "i \<in> offset_of (width out) ` set cs \<Longrightarrow> g (coord_of (width out) i) = h (coord_of (width out) i)"
    proof -
      assume "i \<in> offset_of (width out) ` set cs"
      then obtain c where c: "c \<in> set cs" "i = offset_of (width out) c" by blast
      then have "coord_of (width out) i = c" using assms(1) by (simp add: coord_of_offset)
      with c assms(3) show ?thesis by simp
    qed
    then show "data (fold (store_with g) cs out) ! i = data (fold (store_with h) ds out) ! i"
      using fold_store_nth [OF assms(1) i, of g] fold_store_nth [OF ds i, of h] assms(2)
      by auto
  qed simp
qed simp_all

section \<open>Loop nests as coordinate lists\<close>

lemma sdiv_nonneg: "0 \<le> a \<Longrightarrow> 0 \<le> b \<Longrightarrow> (a :: int) sdiv b = a div b"
  by (cases "a = 0"; cases "b = 0") (simp_all add: signed_divide_int_def)

lemma smod_nonneg: "0 \<le> a \<Longrightarrow> 0 \<le> b \<Longrightarrow> (a :: int) smod b = a mod b"
  by (cases "a = 0"; cases "b = 0") (simp_all add: signed_modulo_int_def)

lemma set_for_range [simp]: "set (for_range lo hi) = {lo..<hi}"
  by (auto simp add: for_range_def)

lemma set_block:
  "set (concat (map (\<lambda>y. map (\<lambda>x. (x, y)) (for_range x0 x1)) (for_range y0 y1))) =
     {x0..<x1} \<times> {y0..<y1}"
  by auto

lemma set_row_iterations: "set (concat (row_iterations input)) = grid input"
  unfolding row_iterations_def grid_def by (rule set_block)

lemma tile_cover:
  fixes T x y w h :: int
  assumes T: "1 \<le> T" and x: "0 \<le> x" "x < w" and y: "0 \<le> y" "y < h"
  defines "ntx \<equiv> (w + T - 1) div T" and "nty \<equiv> (h + T - 1) div T"
  defines "idx \<equiv> (y div T) * ntx + x div T"
  shows "0 \<le> idx" "idx < ntx * nty" "idx div ntx = y div T" "idx mod ntx = x div T"
proof -
  have T0: "0 < T" using T by simp
  have "x div T \<le> (w - 1) div T" using x T0 by (intro zdiv_mono1) simp_all
  moreover have "(w + T - 1) div T = (w - 1) div T + 1"
    using T0 div_add_self2 [of T "w - 1"] by (simp add: algebra_simps)
  ultimately have tx: "x div T < ntx" by (simp add: ntx_def)
  have "y div T \<le> (h - 1) div T" using y T0 by (intro zdiv_mono1) simp_all
  moreover have "(h + T - 1) div T = (h - 1) div T + 1"
    using T0 div_add_self2 [of T "h - 1"] by (simp add: algebra_simps)
  ultimately have ty: "y div T < nty" by (simp add: nty_def)
  have tx0: "0 \<le> x div T" using x T0 by (simp add: pos_imp_zdiv_nonneg_iff)
  have ty0: "0 \<le> y div T" using y T0 by (simp add: pos_imp_zdiv_nonneg_iff)
  have ntx0: "0 < ntx" using tx tx0 by simp
  show "0 \<le> idx" using tx0 ty0 ntx0 by (simp add: idx_def)
  have "idx < (y div T) * ntx + ntx" using tx by (simp add: idx_def)
  also have "\<dots> = (y div T + 1) * ntx" by (simp add: algebra_simps)
  also have "\<dots> \<le> nty * ntx" using ty ntx0 by (intro mult_right_mono) simp_all
  finally show "idx < ntx * nty" by (simp add: mult.commute)
  show "idx div ntx = y div T" using tx tx0 ntx0 by (simp add: idx_def)
  show "idx mod ntx = x div T" using tx tx0 ntx0 by (simp add: idx_def)
qed

lemma set_tile_iterations:
  assumes wh: "0 \<le> width input" "0 \<le> height input" and T: "1 \<le> tile_size config"
  shows "set (concat (tile_iterations input config)) = grid input"
proof -
  let ?T = "tile_size config" and ?w = "width input" and ?h = "height input"
  let ?ntx = "(?w + ?T - 1) div ?T" and ?nty = "(?h + ?T - 1) div ?T"
  have T0: "0 < ?T" using T by simp
  have ntx: "(?w + ?T - 1) sdiv ?T = ?ntx" using wh T by (intro sdiv_nonneg) simp_all
  have nty: "(?h + ?T - 1) sdiv ?T = ?nty" using wh T by (intro sdiv_nonneg) simp_all
  have ntx0: "0 \<le> ?ntx" using wh T0 by (simp add: pos_imp_zdiv_nonneg_iff)
  define tile where "tile = (\<lambda>i.
     {(i mod ?ntx) * ?T ..< min ((i mod ?ntx) * ?T + ?T) ?w} \<times>
     {(i div ?ntx) * ?T ..< min ((i div ?ntx) * ?T + ?T) ?h})"
  define body where "body = (\<lambda>i. concat (map (\<lambda>y. map (\<lambda>x. (x, y))
             (for_range (i smod ?ntx * ?T) (min (i smod ?ntx * ?T + ?T) ?w)))
             (for_range (i sdiv ?ntx * ?T) (min (i sdiv ?ntx * ?T + ?T) ?h))))"
  have body: "set (body i) = tile i" if "i \<in> {0..<?ntx * ?nty}" for i
  proof -
    from that have i0: "0 \<le> i" by simp
    have d: "i sdiv ?ntx = i div ?ntx" using i0 ntx0 by (rule sdiv_nonneg)
    have m: "i smod ?ntx = i mod ?ntx" using i0 ntx0 by (rule smod_nonneg)
    show ?thesis unfolding body_def d m tile_def by (rule set_block)
  qed
  have "tile_iterations input config = map body (for_range 0 (?ntx * ?nty))"
    unfolding tile_iterations_def Let_def ntx nty body_def by (rule refl)
  then have "set (concat (tile_iterations input config)) = (\<Union>i \<in> {0..<?ntx * ?nty}. set (body i))"
    by simp
  also have "\<dots> = (\<Union>i \<in> {0..<?ntx * ?nty}. tile i)"
    using body by (intro SUP_cong refl)
  finally have eq: "set (concat (tile_iterations input config)) = (\<Union>i \<in> {0..<?ntx * ?nty}. tile i)" .
  have sub: "tile i \<subseteq> grid input" if "i \<in> {0..<?ntx * ?nty}" for i
  proof -
    from that have i0: "0 \<le> i" by simp
    have "0 \<le> i mod ?ntx"
    proof (cases "?ntx = 0")
      case True then show ?thesis using i0 by simp
    next
      case False then show ?thesis using ntx0 by simp
    qed
    then have a: "0 \<le> (i mod ?ntx) * ?T" using T0 by simp
    have "0 \<le> i div ?ntx" using i0 ntx0 by (simp add: div_int_pos_iff)
    then have b: "0 \<le> (i div ?ntx) * ?T" using T0 by simp
    show ?thesis using a b by (auto simp add: tile_def grid_def)
  qed
  have sup: "grid input \<subseteq> (\<Union>i \<in> {0..<?ntx * ?nty}. tile i)"
  proof
    fix c assume "c \<in> grid input"
    then obtain x y where c: "c = (x, y)" and x: "0 \<le> x" "x < ?w" and y: "0 \<le> y" "y < ?h"
      by (auto simp add: grid_def)
    let ?i = "(y div ?T) * ?ntx + x div ?T"
    note tc = tile_cover [OF T x y]
    have "x = x div ?T * ?T + x mod ?T" "y = y div ?T * ?T + y mod ?T"
      by simp_all
    moreover have "0 \<le> x mod ?T" "x mod ?T < ?T" "0 \<le> y mod ?T" "y mod ?T < ?T"
      using T0 by simp_all
    ultimately have "x div ?T * ?T \<le> x" "x < x div ?T * ?T + ?T"
      "y div ?T * ?T \<le> y" "y < y div ?T * ?T + ?T"
      by linarith+
    then have "(x, y) \<in> tile ?i"
      unfolding tile_def tc(3) tc(4) using x y by simp
    moreover have "?i \<in> {0..<?ntx * ?nty}" using tc by simp
    ultimately show "c \<in> (\<Union>i \<in> {0..<?ntx * ?nty}. tile i)" unfolding c by blast
  qed
  show ?thesis unfolding eq using sub sup by blast
qed

lemma fold_nested:
  "fold (\<lambda>y out. fold (\<lambda>x out. F (x, y) out) xs out) ys out0 =
     fold F (concat (map (\<lambda>y. map (\<lambda>x. (x, y)) xs) ys)) out0"
  by (induction ys arbitrary: out0) (simp_all add: fold_map comp_def)

lemma serial_pixel_store: "serial_pixel input kern = store_with (filter_value input kern)"
  by (rule ext)+
    (simp add: serial_pixel_def store_with_def filter_value_def normalised_sum_def split_def Let_def)

lemma apply_filter_serial_fold:
  "apply_filter_serial input kern =
     fold (store_with (filter_value input kern)) (concat (row_iterations input))
       (new_image (width input) (height input) 255)"
  unfolding apply_filter_serial_def row_iterations_def serial_pixel_store
  by (rule fold_nested)

lemma omp_conformingD:
  "omp_conforming runtime its \<Longrightarrow> omp_execution its (runtime team kind chunk its)"
  unfolding omp_conforming_def by blast

lemma new_image_fields [simp]:
  "width (new_image w h m) = w" "height (new_image w h m) = h" "max_val (new_image w h m) = m"
  "data (new_image w h m) = replicate (nat (w * h)) 0"
  by (simp_all add: new_image_def)

lemma grid_in_columns: "c \<in> grid input \<Longrightarrow> in_columns (width input) c"
  by (auto simp add: grid_def in_columns_def)

lemma omp_execution_set: "omp_execution its exec \<Longrightarrow> set exec = set (concat its)"
  unfolding omp_execution_def by (rule mset_eq_setD)

lemma example_runtime_conforming: "omp_conforming example_runtime its"
  unfolding omp_conforming_def omp_execution_def example_runtime_def
  by (auto simp add: mset_concat rev_map [symmetric] sum_list_rev comp_def split: Schedule.splits)

lemma offset_in_buffer:
  assumes "wf_image input" and "c \<in> grid input"
  shows "offset_of (width input) c < length (data input)"
proof -
  obtain x y where c: "c = (x, y)" by (cases c)
  from assms c have x: "0 \<le> x" "x < width input" and y: "0 \<le> y" "y < height input"
    by (simp_all add: grid_def)
  have "y * width input + x < y * width input + width input" using x by simp
  also have "\<dots> = (y + 1) * width input" by (simp add: algebra_simps)
  also have "\<dots> \<le> height input * width input"
    using y x by (intro mult_right_mono) simp_all
  finally have "y * width input + x < width input * height input" by (simp add: mult.commute)
  moreover have "0 \<le> y * width input + x" using x y by simp
  ultimately show ?thesis
    using assms(1) by (simp add: offset_of_def c wf_image_def)
qed

lemma pixel_fold_store:
  assumes "wf_image input" and "set cs = grid input" and "(x, y) \<in> grid input"
  shows "pixel (fold (store_with g) cs (new_image (width input) (height input) m)) x y = g (x, y)"
proof -
  let ?out = "new_image (width input) (height input) m"
  have len: "length (data ?out) = length (data input)"
    using assms(1) by (simp add: wf_image_def)
  have i: "offset_of (width ?out) (x, y) < length (data ?out)"
    using offset_in_buffer [OF assms(1,3)] len by simp
  have cols: "\<forall>c \<in> set cs. in_columns (width ?out) c"
    using assms(2) by (simp add: grid_in_columns)
  have mem: "offset_of (width ?out) (x, y) \<in> offset_of (width ?out) ` set cs"
    using assms(2,3) by blast
  have "coord_of (width ?out) (offset_of (width ?out) (x, y)) = (x, y)"
    using assms(3) by (intro coord_of_offset) (simp add: grid_in_columns)
  then have "data (fold (store_with g) cs ?out) ! offset_of (width ?out) (x, y) = g (x, y)"
    using fold_store_nth [OF cols i, of g] mem by simp
  then show ?thesis
    by (simp add: pixel_def offset_of_def)
qed

lemma coord_in_grid:
  assumes "wf_image input" and "i < length (data input)"
  shows "coord_of (width input) i \<in> grid input" and "offset_of (width input) (coord_of (width input) i) = i"
proof -
  let ?w = "width input" and ?h = "height input"
  from assms have i: "int i < ?w * ?h" and w0: "0 \<le> ?w" and h0: "0 \<le> ?h"
    by (auto simp add: wf_image_def)
  have w: "0 < ?w"
  proof (rule ccontr)
    assume "\<not> 0 < ?w" with w0 have "?w = 0" by simp
    with i show False by simp
  qed
  have d0: "0 \<le> int i div ?w" using w by (simp add: pos_imp_zdiv_nonneg_iff)
  have "int i div ?w < ?h"
  proof (rule ccontr)
    assume "\<not> int i div ?w < ?h"
    then have "?h * ?w \<le> (int i div ?w) * ?w" using w by (intro mult_right_mono) simp_all
    also have "\<dots> \<le> int i"
    proof -
      have "int i = (int i div ?w) * ?w + int i mod ?w" by simp
      moreover have "0 \<le> int i mod ?w" using w by simp
      ultimately show ?thesis by linarith
    qed
    finally show False using i by (simp add: mult.commute)
  qed
  with d0 w show "coord_of ?w i \<in> grid input"
    by (simp add: coord_of_def grid_def)
  show "offset_of ?w (coord_of ?w i) = i"
    by (simp add: coord_of_def offset_of_def)
qed

lemma serial_fields [simp]:
  "width (apply_filter_serial input kern) = width input"
  "height (apply_filter_serial input kern) = height input"
  "max_val (apply_filter_serial input kern) = 255"
  "length (data (apply_filter_serial input kern)) = nat (width input * height input)"
  by (simp_all add: apply_filter_serial_fold)

lemma serial_pixel_value:
  assumes "wf_image input" and "(x, y) \<in> grid input"
  shows "pixel (apply_filter_serial input kern) x y = filter_value input kern (x, y)"
  unfolding apply_filter_serial_fold
  using assms(1) set_row_iterations assms(2) by (rule pixel_fold_store)

lemma serial_data_nth:
  assumes "wf_image input" and "i < length (data input)"
  shows "data (apply_filter_serial input kern) ! i = filter_value input kern (coord_of (width input) i)"
proof -
  let ?p = "coord_of (width input) i"
  note p = coord_in_grid [OF assms]
  have "pixel (apply_filter_serial input kern) (fst ?p) (snd ?p) = filter_value input kern ?p"
    using serial_pixel_value [OF assms(1), of "fst ?p" "snd ?p"] p(1) by simp
  moreover have "pixel (apply_filter_serial input kern) (fst ?p) (snd ?p) =
      data (apply_filter_serial input kern) ! offset_of (width input) ?p"
    by (simp add: pixel_def offset_of_def)
  ultimately show ?thesis using p(2) by simp
qed

section \<open>Rounding\<close>

lemma round_to_even_of_int: "round_to_even (of_int m) = m"
  by (simp add: round_to_even_def)

lemma round_to_even_ge: "of_int m \<le> y \<Longrightarrow> m \<le> round_to_even y"
proof -
  assume "of_int m \<le> y"
  then have "m \<le> \<lfloor>y\<rfloor>" by (simp add: le_floor_iff)
  then show ?thesis by (simp add: round_to_even_def Let_def)
qed

lemma round_to_even_le: "y \<le> of_int m \<Longrightarrow> round_to_even y \<le> m"
proof -
  assume a: "y \<le> of_int m"
  then have f: "\<lfloor>y\<rfloor> \<le> m" by (simp add: floor_le_iff)
  show ?thesis
  proof (cases "\<lfloor>y\<rfloor> = m")
    case True
    with a have "y - of_int \<lfloor>y\<rfloor> \<le> 0" by simp
    then show ?thesis using True by (simp add: round_to_even_def Let_def)
  next
    case False
    with f have "\<lfloor>y\<rfloor> + 1 \<le> m" by simp
    then show ?thesis by (simp add: round_to_even_def Let_def)
  qed
qed

lemma round_to_even_error: "\<bar>of_int (round_to_even y) - y\<bar> \<le> 1 / 2"
proof -
  have "of_int \<lfloor>y\<rfloor> \<le> y" "y < of_int \<lfloor>y\<rfloor> + 1" by linarith+
  then show ?thesis by (auto simp add: round_to_even_def Let_def)
qed

lemma power_int_2_less_cancel: "power_int (2 :: real) a < power_int 2 b \<Longrightarrow> a < b"
proof (rule ccontr)
  assume lt: "power_int (2 :: real) a < power_int 2 b" and "\<not> a < b"
  then have "b \<le> a" by simp
  then have "power_int (2 :: real) b \<le> power_int 2 a" by (rule power_int_increasing) simp
  with lt show False by simp
qed

lemma binade_from_le: "e \<le> k \<Longrightarrow> a < power_int 2 (k + 1) \<Longrightarrow> binade_from n e a \<le> k"
proof (induction n arbitrary: e)
  case 0
  then show ?case by simp
next
  case (Suc n)
  show ?case
  proof (cases "power_int 2 (e + 1) \<le> a")
    case True
    with Suc.prems have "power_int (2 :: real) (e + 1) < power_int 2 (k + 1)" by simp
    then have "e + 1 < k + 1" by (rule power_int_2_less_cancel)
    then have "e + 1 \<le> k" by simp
    with Suc.IH [of "e + 1"] Suc.prems True show ?thesis by simp
  next
    case False
    with Suc.prems show ?thesis by simp
  qed
qed

text \<open>The count is right: it stops at the binade of the number, or at either end of
  the range.\<close>

lemma binade_from_eq:
  "e0 \<le> e \<Longrightarrow> e \<le> e0 + int n \<Longrightarrow> (e0 < e \<longrightarrow> power_int 2 e \<le> a) \<Longrightarrow>
     (e < e0 + int n \<longrightarrow> a < power_int 2 (e + 1)) \<Longrightarrow> binade_from n e0 a = e"
proof (induction n arbitrary: e0)
  case 0
  then show ?case by simp
next
  case (Suc n)
  show ?case
  proof (cases "power_int 2 (e0 + 1) \<le> a")
    case True
    have "e0 < e"
    proof (rule ccontr)
      assume "\<not> e0 < e"
      with Suc.prems have "e = e0" by simp
      with Suc.prems True show False by simp
    qed
    with Suc.IH [of "e0 + 1"] Suc.prems True show ?thesis by simp
  next
    case False
    have "e = e0"
    proof (rule ccontr)
      assume "e \<noteq> e0"
      with Suc.prems have lt: "e0 < e" by simp
      with Suc.prems have "power_int 2 e \<le> a" by simp
      with False have "power_int (2 :: real) e < power_int 2 (e0 + 1)" by simp
      then have "e < e0 + 1" by (rule power_int_2_less_cancel)
      with lt show False by simp
    qed
    with False show ?thesis by simp
  qed
qed

lemma binade_le: "- 126 \<le> k \<Longrightarrow> \<bar>x\<bar> < power_int 2 (k + 1) \<Longrightarrow> binade x \<le> k"
  unfolding binade_def by (rule binade_from_le)

lemma binade_eqI:
  "- 126 \<le> e \<Longrightarrow> e \<le> 127 \<Longrightarrow> (- 126 < e \<longrightarrow> power_int 2 e \<le> \<bar>x\<bar>) \<Longrightarrow>
     (e < 127 \<longrightarrow> \<bar>x\<bar> < power_int 2 (e + 1)) \<Longrightarrow> binade x = e"
  unfolding binade_def by (rule binade_from_eq) simp_all

text \<open>The rounding of a number whose binade is known.\<close>

lemma round_float_binade:
  assumes "- 126 \<le> e" and "e \<le> 127" and "- 126 < e \<longrightarrow> power_int 2 e \<le> \<bar>x\<bar>"
    and "e < 127 \<longrightarrow> \<bar>x\<bar> < power_int 2 (e + 1)"
  shows "round_float x =
     (let q = power_int 2 (e - 23);
          r = of_int (round_to_even (x / q)) * q
      in if 2 ^ 128 \<le> r then PlusInf else if r \<le> - (2 ^ 128) then MinusInf else Finite r)"
  unfolding round_float_def binade_eqI [OF assms] by (rule refl)

text \<open>Below \<open>2^24\<close> the spacing is at most 1, and a power of two divides 1: the rounding
  is a rounding of \<open>x * 2^j\<close> to an integer, for some \<open>j\<close>, and below 256 for some \<open>j\<close>
  from 16 on.\<close>

lemma round_float_small:
  assumes "\<bar>x\<bar> < 2 ^ 24"
  obtains j where "round_float x = Finite (of_int (round_to_even (x * 2 ^ j)) / 2 ^ j)"
    and "\<bar>x\<bar> < 256 \<Longrightarrow> 16 \<le> j"
proof -
  define e where "e = binade x"
  define j where "j = nat (23 - e)"
  have "\<bar>x\<bar> < power_int 2 (23 + 1)" using assms by simp
  then have e23: "e \<le> 23" unfolding e_def by (intro binade_le) simp_all
  then have ej: "e - 23 = - int j" by (simp add: j_def)
  have q: "power_int (2 :: real) (binade x - 23) = inverse (2 ^ j)"
    unfolding e_def [symmetric] ej by (simp add: power_int_minus)
  let ?n = "round_to_even (x * 2 ^ j)"
  have lo: "- (2 ^ 24) * 2 ^ j \<le> ?n"
  proof -
    have "- (2 ^ 24) \<le> x" using assms by simp
    then have "- (2 ^ 24) * 2 ^ j \<le> x * 2 ^ j" by (intro mult_right_mono) simp_all
    then have "of_int (- (2 ^ 24) * 2 ^ j) \<le> x * 2 ^ j" by simp
    then show ?thesis by (rule round_to_even_ge)
  qed
  have hi: "?n \<le> 2 ^ 24 * 2 ^ j"
  proof -
    have "x \<le> 2 ^ 24" using assms by simp
    then have "x * 2 ^ j \<le> 2 ^ 24 * 2 ^ j" by (intro mult_right_mono) simp_all
    then have "x * 2 ^ j \<le> of_int (2 ^ 24 * 2 ^ j)" by simp
    then show ?thesis by (rule round_to_even_le)
  qed
  have "real_of_int (- (2 ^ 24) * 2 ^ j) \<le> of_int ?n" using lo by (simp only: of_int_le_iff)
  then have "- (2 ^ 24) * 2 ^ j \<le> real_of_int ?n" by simp
  then have "- (2 ^ 24) * 2 ^ j / 2 ^ j \<le> real_of_int ?n / 2 ^ j" by (intro divide_right_mono) simp_all
  then have rlo: "- (2 ^ 24) \<le> real_of_int ?n / 2 ^ j" by simp
  have "of_int ?n \<le> real_of_int (2 ^ 24 * 2 ^ j)" using hi by (simp only: of_int_le_iff)
  then have "real_of_int ?n \<le> 2 ^ 24 * 2 ^ j" by simp
  then have "real_of_int ?n / 2 ^ j \<le> 2 ^ 24 * 2 ^ j / 2 ^ j" by (intro divide_right_mono) simp_all
  then have rhi: "real_of_int ?n / 2 ^ j \<le> 2 ^ 24" by simp
  have "round_float x = Finite (of_int ?n / 2 ^ j)"
    using rlo rhi unfolding round_float_def q Let_def
    by (simp add: divide_inverse)
  moreover have "16 \<le> j" if "\<bar>x\<bar> < 256"
  proof -
    from that have "\<bar>x\<bar> < power_int 2 (7 + 1)" by simp
    then have "e \<le> 7" unfolding e_def by (intro binade_le) simp_all
    then show ?thesis by (simp add: j_def)
  qed
  ultimately show ?thesis by (rule that)
qed

text \<open>An integer below \<open>2^24\<close> in magnitude is a \<^verbatim>\<open>float\<close>.\<close>

lemma round_float_Ints:
  assumes "x \<in> \<int>" and "\<bar>x\<bar> < 2 ^ 24"
  shows "round_float x = Finite x"
proof -
  from assms(1) obtain n :: int where n: "x = of_int n" by (rule Ints_cases)
  from round_float_small [OF assms(2)] obtain j where
    j: "round_float x = Finite (of_int (round_to_even (x * 2 ^ j)) / 2 ^ j)" by blast
  have "x * 2 ^ j = of_int (n * 2 ^ j)" by (simp add: n)
  then have "round_to_even (x * 2 ^ j) = n * 2 ^ j" by (simp only: round_to_even_of_int)
  with j show ?thesis by (simp add: n)
qed

text \<open>Below \<open>2^24\<close> rounding does not cross an integer, and below 256 it moves a number
  by \<open>2^-17\<close> at most.\<close>

lemma round_float_bounds:
  assumes "\<bar>x\<bar> < 2 ^ 24"
  obtains r where "round_float x = Finite r"
    and "\<And>k :: int. of_int k \<le> x \<Longrightarrow> of_int k \<le> r"
    and "\<And>k :: int. x \<le> of_int k \<Longrightarrow> r \<le> of_int k"
    and "\<bar>x\<bar> < 256 \<Longrightarrow> \<bar>r - x\<bar> \<le> 1 / 2 ^ 17"
proof -
  from round_float_small [OF assms] obtain j where
    j: "round_float x = Finite (of_int (round_to_even (x * 2 ^ j)) / 2 ^ j)"
    and j16: "\<bar>x\<bar> < 256 \<Longrightarrow> 16 \<le> j" by blast
  let ?n = "round_to_even (x * 2 ^ j)"
  let ?r = "real_of_int ?n / 2 ^ j"
  have lower: "of_int k \<le> ?r" if "of_int k \<le> x" for k :: int
  proof -
    from that have "of_int k * 2 ^ j \<le> x * 2 ^ j" by (intro mult_right_mono) simp_all
    then have "of_int (k * 2 ^ j) \<le> x * 2 ^ j" by simp
    then have "k * 2 ^ j \<le> ?n" by (rule round_to_even_ge)
    then have "real_of_int (k * 2 ^ j) \<le> of_int ?n" by (simp only: of_int_le_iff)
    then have "of_int k * 2 ^ j \<le> real_of_int ?n" by simp
    then show ?thesis by (simp add: pos_le_divide_eq)
  qed
  have upper: "?r \<le> of_int k" if "x \<le> of_int k" for k :: int
  proof -
    from that have "x * 2 ^ j \<le> of_int k * 2 ^ j" by (intro mult_right_mono) simp_all
    then have "x * 2 ^ j \<le> of_int (k * 2 ^ j)" by simp
    then have "?n \<le> k * 2 ^ j" by (rule round_to_even_le)
    then have "of_int ?n \<le> real_of_int (k * 2 ^ j)" by (simp only: of_int_le_iff)
    then have "real_of_int ?n \<le> of_int k * 2 ^ j" by simp
    then show ?thesis by (simp add: pos_divide_le_eq)
  qed
  have err: "\<bar>?r - x\<bar> \<le> 1 / 2 ^ 17" if "\<bar>x\<bar> < 256"
  proof -
    have "?r - x = (of_int ?n - x * 2 ^ j) / 2 ^ j" by (simp add: field_simps)
    then have "\<bar>?r - x\<bar> = \<bar>of_int ?n - x * 2 ^ j\<bar> / 2 ^ j" by (simp add: abs_divide)
    also have "\<dots> \<le> (1 / 2) / 2 ^ j"
      using round_to_even_error [of "x * 2 ^ j"] by (intro divide_right_mono) simp_all
    also have "\<dots> \<le> (1 / 2) / 2 ^ 16"
      using j16 [OF that] by (intro divide_left_mono power_increasing) simp_all
    finally show ?thesis by simp
  qed
  show ?thesis using j lower upper err by (rule that)
qed

section \<open>Saturation and the cast\<close>

text \<open>The saturation of the serial filter always gives a value the cast is defined
  on. \<^verbatim>\<open>std::clamp\<close> gives the same value except on NaN, which it returns.\<close>

lemma saturate_defined: "cast_defined (std_max (Finite 0) (std_min (Finite 255) v))"
  by (cases v) (simp_all add: cast_defined_def std_max_def std_min_def)

lemma clamp_saturate:
  "v \<noteq> NaN \<Longrightarrow> std_clamp v (Finite 0) (Finite 255) = std_max (Finite 0) (std_min (Finite 255) v)"
  by (cases v) (auto simp add: std_clamp_def std_max_def std_min_def)

lemma clamp_defined_iff: "cast_defined (std_clamp v (Finite 0) (Finite 255)) \<longleftrightarrow> v \<noteq> NaN"
proof (cases "v = NaN")
  case True
  then show ?thesis by (simp add: std_clamp_def cast_defined_def)
next
  case False
  then show ?thesis using saturate_defined [of v] by (simp add: clamp_saturate)
qed

lemma saturate_NaN: "static_cast_uint8 (std_max (Finite 0) (std_min (Finite 255) NaN)) = 255"
  by (simp add: std_max_def std_min_def static_cast_uint8_def float_to_uint8_def)

text \<open>
  The quotient of an integer below \<open>2^24\<close> in magnitude by an integer from 1 to \<open>2^16\<close>:
  rounded, saturated and cast it is the byte that the exact quotient, saturated and
  cut to its integer part, gives.
\<close>

lemma saturate_quotient:
  fixes S d :: int
  assumes S: "\<bar>S\<bar> < 2 ^ 24" and d: "1 \<le> d" "d \<le> 2 ^ 16"
  shows "\<exists>r. round_float (of_int S / of_int d) = Finite r \<and>
           static_cast_uint8 (std_max (Finite 0) (std_min (Finite 255) (Finite r))) =
             float_to_uint8 (max 0 (min 255 (of_int S / of_int d)))"
proof -
  define x :: real where "x = of_int S / of_int d"
  have d0: "0 < real_of_int d" using d by simp
  have "\<bar>x\<bar> = \<bar>real_of_int S\<bar> / real_of_int d" using d0 by (simp add: x_def)
  also have "\<dots> \<le> \<bar>real_of_int S\<bar> / 1" using d by (intro divide_left_mono) simp_all
  also have "\<dots> < 2 ^ 24"
  proof -
    have "real_of_int \<bar>S\<bar> < real_of_int (2 ^ 24)" using S by (simp only: of_int_less_iff)
    then show ?thesis by simp
  qed
  finally have x24: "\<bar>x\<bar> < 2 ^ 24" .
  from round_float_bounds [OF x24] obtain r where r: "round_float x = Finite r"
    and lower: "\<And>k :: int. of_int k \<le> x \<Longrightarrow> of_int k \<le> r"
    and upper: "\<And>k :: int. x \<le> of_int k \<Longrightarrow> r \<le> of_int k"
    and err: "\<bar>x\<bar> < 256 \<Longrightarrow> \<bar>r - x\<bar> \<le> 1 / 2 ^ 17" by blast
  have "static_cast_uint8 (std_max (Finite 0) (std_min (Finite 255) (Finite r))) =
          float_to_uint8 (max 0 (min 255 x))"
  proof -
    consider "x < 0" | "255 \<le> x" | "0 \<le> x" "x < 255" by linarith
    then show ?thesis
    proof cases
      case 1
      then have "x \<le> of_int 0" by simp
      then have "r \<le> of_int 0" by (rule upper)
      then have "r \<le> 0" by simp
      with 1 show ?thesis
        by (simp add: std_max_def std_min_def static_cast_uint8_def float_to_uint8_def)
    next
      case 2
      then have "of_int 255 \<le> x" by simp
      then have "of_int 255 \<le> r" by (rule lower)
      then have "255 \<le> r" by simp
      with 2 show ?thesis
        by (simp add: std_max_def std_min_def static_cast_uint8_def float_to_uint8_def)
    next
      case 3
      define k where "k = \<lfloor>x\<rfloor>"
      have kx: "of_int k \<le> x" "x < of_int k + 1" unfolding k_def by linarith+
      have k0: "0 \<le> k" using 3 by (simp add: k_def)
      have kr: "of_int k \<le> r" using kx(1) by (rule lower)
      have rk: "r < of_int k + 1"
      proof (cases "x = of_int k")
        case True
        then have "r \<le> of_int k" by (intro upper) simp
        then show ?thesis by simp
      next
        case False
        have "real_of_int S < (of_int k + 1) * of_int d"
          using kx(2) d0 by (simp add: x_def pos_divide_less_eq)
        then have "real_of_int S < of_int ((k + 1) * d)" by simp
        then have "S < (k + 1) * d" by (simp only: of_int_less_iff)
        then have "S \<le> (k + 1) * d - 1" by simp
        then have "real_of_int S \<le> of_int ((k + 1) * d - 1)" by (simp only: of_int_le_iff)
        then have "real_of_int S \<le> (of_int k + 1) * of_int d - 1" by simp
        then have "x \<le> ((of_int k + 1) * of_int d - 1) / of_int d"
          unfolding x_def using d0 by (intro divide_right_mono) simp_all
        then have x1: "x \<le> of_int k + 1 - 1 / of_int d" using d0 by (simp add: field_simps)
        have "real_of_int d \<le> real_of_int (2 ^ 16)" using d by (simp only: of_int_le_iff)
        then have "real_of_int d \<le> 2 ^ 16" by simp
        then have "1 / 2 ^ 16 \<le> 1 / real_of_int d" using d0 by (intro divide_left_mono) simp_all
        then have a: "1 / 65536 \<le> 1 / real_of_int d" by simp
        have "\<bar>r - x\<bar> \<le> 1 / 2 ^ 17" using 3 by (intro err) simp
        then have b: "\<bar>r - x\<bar> \<le> 1 / 131072" by simp
        show ?thesis using x1 a b by linarith
      qed
      have fr: "\<lfloor>r\<rfloor> = k" using kr rk by (simp add: floor_unique)
      have r0: "0 \<le> r" using kr k0 by simp
      have "of_int k + 1 \<le> (255 :: real)"
      proof -
        have "k < 255" using 3 by (simp add: k_def floor_less_iff)
        then have "k + 1 \<le> 255" by simp
        then have "real_of_int (k + 1) \<le> real_of_int 255" by (simp only: of_int_le_iff)
        then show ?thesis by simp
      qed
      then have r255: "r < 255" using rk by simp
      show ?thesis
      proof (cases "r = 0")
        case True
        with fr have "k = 0" by simp
        then have "\<lfloor>x\<rfloor> = 0" by (simp add: k_def)
        with True 3 show ?thesis
          by (simp add: std_max_def std_min_def static_cast_uint8_def float_to_uint8_def)
      next
        case False
        with 3 r0 r255 fr show ?thesis
          by (simp add: std_max_def std_min_def static_cast_uint8_def float_to_uint8_def k_def)
      qed
    qed
  qed
  with r show ?thesis unfolding x_def by blast
qed

section \<open>The accumulation on kernels of integer weights\<close>

lemma sum_list_upto: "sum_list (map g [i..j]) = (\<Sum>k = i..j. (g k :: real))"
  by (simp add: sum_list_distinct_conv_sum_set)

lemma sum_list_block:
  fixes f :: "'a \<times> 'b \<Rightarrow> real"
  shows "sum_list (map f (concat (map (\<lambda>y. map (\<lambda>x. (x, y)) xs) ys))) =
           sum_list (map (\<lambda>y. sum_list (map (\<lambda>x. f (x, y)) xs)) ys)"
  by (induction ys) (simp_all add: comp_def)

lemma sum_list_kernel_offsets:
  fixes f :: "int \<times> int \<Rightarrow> real"
  shows "sum_list (map f (kernel_offsets r)) = (\<Sum>ky = - r..r. \<Sum>kx = - r..r. f (kx, ky))"
  unfolding kernel_offsets_def sum_list_block
  by (simp add: sum_list_upto)

lemma set_kernel_offsets: "set (kernel_offsets r) = {- r..r} \<times> {- r..r}"
  unfolding kernel_offsets_def by auto

lemma convolve_sum_fold:
  "convolve_sum input kern x y =
     fold (\<lambda>c sum. fadd sum
             (fmul (uint8_to_float (pixel input (spec_clamp (x + fst c) (width input))
                                     (spec_clamp (y + snd c) (height input))))
                   (kernel_at kern (fst c + radius kern) (snd c + radius kern))))
       (kernel_offsets (radius kern)) (Finite 0)"
  unfolding convolve_sum_def kernel_offsets_def Let_def spec_clamp_def fold_nested [symmetric]
  by simp

lemma radius_wf:
  assumes "wf_kernel kern"
  shows "0 \<le> radius kern" and "size_k kern = 2 * radius kern + 1"
proof -
  from assms have s: "1 \<le> size_k kern" "odd (size_k kern)" by (simp_all add: wf_kernel_def)
  have r: "radius kern = size_k kern div 2"
    unfolding radius_def using s by (intro sdiv_nonneg) simp_all
  show "0 \<le> radius kern" using s r by simp
  show "size_k kern = 2 * radius kern + 1" using s r by (simp add: odd_two_times_div_two_succ)
qed

lemma sum_centred:
  fixes r :: int and f :: "int \<Rightarrow> real"
  assumes "0 \<le> r"
  shows "(\<Sum>k = - r..r. f (k + r)) = (\<Sum>n<nat (2 * r + 1). f (int n))"
  using assms
  by (intro sum.reindex_bij_witness [where i = "\<lambda>n. int n - r" and j = "\<lambda>k. nat (k + r)"]) auto

lemma sum_rows:
  fixes d :: "real list"
  assumes "length d = n * n"
  shows "(\<Sum>j<n. \<Sum>i<n. d ! (j * n + i)) = sum_list d"
proof -
  have "(\<Sum>i<n. d ! (j * n + i)) = sum ((!) d) {j * n..<j * n + n}" for j
    using sum.shift_bounds_nat_ivl [of "(!) d" 0 "j * n" n]
    by (simp add: lessThan_atLeast0 add.commute)
  then have "(\<Sum>j<n. \<Sum>i<n. d ! (j * n + i)) = sum ((!) d) {..<n * n}"
    using sum.nat_group [of "(!) d" n n] by simp
  also have "\<dots> = sum_list d"
    using assms by (simp add: sum_list_sum_nth lessThan_atLeast0)
  finally show ?thesis .
qed

lemma kernel_index:
  fixes i j n :: nat
  assumes "i < n" and "j < n"
  shows "j * n + i < n * n"
proof -
  have "j * n + i < j * n + n" using assms(1) by simp
  also have "\<dots> = (j + 1) * n" by simp
  also have "\<dots> \<le> n * n" using assms(2) by (intro mult_le_mono1) simp
  finally show ?thesis .
qed

text \<open>The two inner loops read every weight of the kernel once.\<close>

lemma kernel_sum_over_data:
  fixes g :: "float \<Rightarrow> real"
  assumes "wf_kernel kern"
  shows "(\<Sum>ky = - radius kern..radius kern. \<Sum>kx = - radius kern..radius kern.
            g (kernel_at kern (kx + radius kern) (ky + radius kern))) =
         sum_list (map g (data_k kern))"
proof -
  let ?r = "radius kern" and ?n = "nat (size_k kern)"
  note r = radius_wf [OF assms]
  have n: "nat (2 * ?r + 1) = ?n" using r by simp
  have s: "size_k kern = int ?n" using assms by (simp add: wf_kernel_def)
  have len: "length (data_k kern) = ?n * ?n"
    using assms by (simp add: wf_kernel_def nat_mult_distrib)
  have at: "g (kernel_at kern (int i) (int j)) = map g (data_k kern) ! (j * ?n + i)"
    if "i < ?n" and "j < ?n" for i j
  proof -
    have "int j * size_k kern + int i = int (j * ?n + i)" using s by simp
    then have "kernel_at kern (int i) (int j) = data_k kern ! (j * ?n + i)"
      unfolding kernel_at_def by (simp only: nat_int)
    moreover have "j * ?n + i < length (data_k kern)"
      unfolding len using that by (rule kernel_index)
    ultimately show ?thesis by simp
  qed
  have "(\<Sum>ky = - ?r..?r. \<Sum>kx = - ?r..?r. g (kernel_at kern (kx + ?r) (ky + ?r))) =
        (\<Sum>j<?n. \<Sum>i<?n. g (kernel_at kern (int i) (int j)))"
    using sum_centred [OF r(1), of "\<lambda>b. \<Sum>kx = - ?r..?r. g (kernel_at kern (kx + ?r) b)"]
      sum_centred [OF r(1), of "\<lambda>a. g (kernel_at kern a (int j))" for j]
    by (simp add: n)
  also have "\<dots> = (\<Sum>j<?n. \<Sum>i<?n. map g (data_k kern) ! (j * ?n + i))"
    by (intro sum.cong refl at) simp_all
  also have "\<dots> = sum_list (map g (data_k kern))"
    using len by (intro sum_rows) simp
  finally show ?thesis .
qed

lemma kernel_at_member:
  assumes "wf_kernel kern" and "c \<in> set (kernel_offsets (radius kern))"
  shows "kernel_at kern (fst c + radius kern) (snd c + radius kern) \<in> set (data_k kern)"
proof -
  let ?r = "radius kern" and ?n = "nat (size_k kern)"
  note r = radius_wf [OF assms(1)]
  have s: "size_k kern = int ?n" using assms(1) by (simp add: wf_kernel_def)
  have len: "length (data_k kern) = ?n * ?n"
    using assms(1) by (simp add: wf_kernel_def nat_mult_distrib)
  from assms(2) have c: "- ?r \<le> fst c" "fst c \<le> ?r" "- ?r \<le> snd c" "snd c \<le> ?r"
    by (auto simp add: set_kernel_offsets)
  define i where "i = nat (fst c + ?r)"
  define j where "j = nat (snd c + ?r)"
  have ij: "fst c + ?r = int i" "snd c + ?r = int j" using c by (simp_all add: i_def j_def)
  have "i < ?n" "j < ?n" using c r by (simp_all add: i_def j_def)
  then have lt: "j * ?n + i < length (data_k kern)" unfolding len by (rule kernel_index)
  have "int j * size_k kern + int i = int (j * ?n + i)" using s by simp
  then have "kernel_at kern (int i) (int j) = data_k kern ! (j * ?n + i)"
    unfolding kernel_at_def by (simp only: nat_int)
  then show ?thesis unfolding ij using lt by simp
qed

lemma is_integerD: "is_integer f \<Longrightarrow> f = Finite (value_of f) \<and> value_of f \<in> \<int>"
proof (cases f)
  case (Finite v)
  assume "is_integer f"
  with Finite have "v = of_int \<lfloor>v\<rfloor>" by (simp add: is_integer_def)
  then have "v \<in> \<int>" by (metis Ints_of_int)
  with Finite show ?thesis by (simp add: value_of_def)
qed (simp_all add: is_integer_def)

lemma unat_uint8_le: "real (unat (c :: uint8)) \<le> 255"
proof -
  have "unat c < 2 ^ 8" using unsigned_less [of c, where 'a = nat] by simp
  then have "unat c \<le> 255" by simp
  then have "real (unat c) \<le> real 255" by (rule of_nat_mono)
  then show ?thesis by simp
qed

text \<open>
  A sum of products of bytes and integers, accumulated in \<^verbatim>\<open>float\<close>: when the mass
  of the integers, times 255, stays below \<open>2^24\<close>, no product and no partial sum is
  rounded, and the result is the exact sum.
\<close>

lemma accumulate_exact:
  fixes p :: "'a \<Rightarrow> real" and v :: "'a \<Rightarrow> real"
  assumes "\<forall>c \<in> set cs. p c \<in> \<int> \<and> 0 \<le> p c \<and> p c \<le> 255 \<and> v c \<in> \<int>" and "s0 \<in> \<int>"
    and "\<bar>s0\<bar> + 255 * sum_list (map (\<lambda>c. \<bar>v c\<bar>) cs) < 2 ^ 24"
  shows "fold (\<lambda>c s. fadd s (fmul (Finite (p c)) (Finite (v c)))) cs (Finite s0) =
           Finite (s0 + sum_list (map (\<lambda>c. p c * v c) cs)) \<and>
         s0 + sum_list (map (\<lambda>c. p c * v c) cs) \<in> \<int> \<and>
         \<bar>s0 + sum_list (map (\<lambda>c. p c * v c) cs)\<bar> < 2 ^ 24"
  using assms
proof (induction cs arbitrary: s0)
  case Nil
  then show ?case by simp
next
  case (Cons c cs)
  let ?m = "sum_list (map (\<lambda>c. \<bar>v c\<bar>) cs)"
  from Cons.prems(1) have pc: "p c \<in> \<int>" "0 \<le> p c" "p c \<le> 255" and vc: "v c \<in> \<int>"
    by simp_all
  have m0: "0 \<le> ?m" by (rule sum_list_nonneg) auto
  have "\<bar>p c * v c\<bar> = p c * \<bar>v c\<bar>" using pc by (simp add: abs_mult)
  also have "\<dots> \<le> 255 * \<bar>v c\<bar>" using pc by (intro mult_right_mono) simp_all
  finally have b: "\<bar>p c * v c\<bar> \<le> 255 * \<bar>v c\<bar>" .
  have total: "\<bar>s0\<bar> + 255 * \<bar>v c\<bar> + 255 * ?m < 2 ^ 24"
    using Cons.prems(3) by (simp add: algebra_simps)
  have "\<bar>p c * v c\<bar> < 2 ^ 24" using b total m0 by linarith
  moreover have "p c * v c \<in> \<int>" using pc(1) vc by (rule Ints_mult)
  ultimately have prod: "round_float (p c * v c) = Finite (p c * v c)"
    by (simp add: round_float_Ints)
  have "\<bar>s0 + p c * v c\<bar> < 2 ^ 24" using b total m0 by linarith
  moreover have s1: "s0 + p c * v c \<in> \<int>"
    using Cons.prems(2) pc vc by (intro Ints_add Ints_mult)
  ultimately have add: "round_float (s0 + p c * v c) = Finite (s0 + p c * v c)"
    by (simp add: round_float_Ints)
  have rest: "\<forall>c \<in> set cs. p c \<in> \<int> \<and> 0 \<le> p c \<and> p c \<le> 255 \<and> v c \<in> \<int>"
    using Cons.prems(1) by simp
  have "\<bar>s0 + p c * v c\<bar> + 255 * ?m < 2 ^ 24" using b total by linarith
  from Cons.IH [OF rest s1 this] show ?case
    by (simp add: prod add add.assoc)
qed

text \<open>On a kernel of integer weights of small mass the accumulated sum is the sum of
  the contract, an integer below \<open>2^24\<close> in magnitude.\<close>

lemma convolve_sum_exact:
  assumes "wf_kernel kern" and "integer_weights kern"
  shows "\<exists>S :: int. convolve_sum input kern x y = Finite (of_int S) \<and>
           of_int S = spec_weighted_sum input kern x y \<and> \<bar>S\<bar> < 2 ^ 24"
proof -
  let ?r = "radius kern"
  let ?cs = "kernel_offsets ?r"
  define p where "p = (\<lambda>c. real (unat (pixel input (spec_clamp (x + fst c) (width input))
                                      (spec_clamp (y + snd c) (height input)))))"
  define v where "v = (\<lambda>c. value_of (kernel_at kern (fst c + ?r) (snd c + ?r)))"
  have int_w: "kernel_at kern (fst c + ?r) (snd c + ?r) = Finite (v c) \<and> v c \<in> \<int>"
    if "c \<in> set ?cs" for c
  proof -
    have "kernel_at kern (fst c + ?r) (snd c + ?r) \<in> set (data_k kern)"
      using assms(1) that by (rule kernel_at_member)
    then have "is_integer (kernel_at kern (fst c + ?r) (snd c + ?r))"
      using assms(2) by (simp add: integer_weights_def list_all_iff)
    then show ?thesis unfolding v_def by (rule is_integerD)
  qed
  have step: "fold (\<lambda>c sum. fadd sum
             (fmul (uint8_to_float (pixel input (spec_clamp (x + fst c) (width input))
                                     (spec_clamp (y + snd c) (height input))))
                   (kernel_at kern (fst c + ?r) (snd c + ?r)))) ?cs (Finite 0) =
        fold (\<lambda>c s. fadd s (fmul (Finite (p c)) (Finite (v c)))) ?cs (Finite 0)"
    by (rule fold_cong) (simp_all add: int_w p_def uint8_to_float_def)
  have "p c \<in> \<int>" "0 \<le> p c" "p c \<le> 255" for c
    unfolding p_def by (rule Ints_of_nat, rule of_nat_0_le_iff, rule unat_uint8_le)
  then have bytes: "\<forall>c \<in> set ?cs. p c \<in> \<int> \<and> 0 \<le> p c \<and> p c \<le> 255 \<and> v c \<in> \<int>"
    using int_w by simp
  have "sum_list (map (\<lambda>c. \<bar>v c\<bar>) ?cs) =
        (\<Sum>ky = - ?r..?r. \<Sum>kx = - ?r..?r. \<bar>value_of (kernel_at kern (kx + ?r) (ky + ?r))\<bar>)"
    by (simp add: sum_list_kernel_offsets v_def)
  also have "\<dots> = sum_list (map (\<lambda>w. \<bar>value_of w\<bar>) (data_k kern))"
    using kernel_sum_over_data [OF assms(1), of "\<lambda>w. \<bar>value_of w\<bar>"] .
  finally have "\<bar>0 :: real\<bar> + 255 * sum_list (map (\<lambda>c. \<bar>v c\<bar>) ?cs) < 2 ^ 24"
    using assms(2) by (simp add: integer_weights_def)
  from accumulate_exact [OF bytes _ this]
  have acc: "fold (\<lambda>c s. fadd s (fmul (Finite (p c)) (Finite (v c)))) ?cs (Finite 0) =
           Finite (sum_list (map (\<lambda>c. p c * v c) ?cs))"
    and tot: "sum_list (map (\<lambda>c. p c * v c) ?cs) \<in> \<int>"
      "\<bar>sum_list (map (\<lambda>c. p c * v c) ?cs)\<bar> < 2 ^ 24"
    by simp_all
  have spec: "sum_list (map (\<lambda>c. p c * v c) ?cs) = spec_weighted_sum input kern x y"
    by (simp add: sum_list_kernel_offsets p_def v_def spec_weighted_sum_def)
  from tot(1) obtain S :: int where S: "sum_list (map (\<lambda>c. p c * v c) ?cs) = of_int S"
    by (rule Ints_cases)
  have "real_of_int \<bar>S\<bar> < real_of_int (2 ^ 24)" using tot(2) S by simp
  then have "\<bar>S\<bar> < 2 ^ 24" by (simp only: of_int_less_iff)
  then show ?thesis
    using convolve_sum_fold [of input kern x y] step acc S spec by auto
qed

lemma integer_divisorD:
  assumes "integer_divisor kern"
  obtains d :: int where "divisor kern = Finite (of_int d)" and "1 \<le> d" and "d \<le> 2 ^ 16"
proof -
  from assms have i: "is_integer (divisor kern)"
    and b: "1 \<le> value_of (divisor kern)" "value_of (divisor kern) \<le> 2 ^ 16"
    by (simp_all add: integer_divisor_def)
  from is_integerD [OF i] obtain d :: int where d: "value_of (divisor kern) = of_int d"
    and f: "divisor kern = Finite (value_of (divisor kern))"
    by (auto elim: Ints_cases)
  have "real_of_int 1 \<le> of_int d" "real_of_int d \<le> real_of_int (2 ^ 16)" using b d by simp_all
  then have "1 \<le> d" "d \<le> 2 ^ 16" by (simp_all only: of_int_le_iff)
  with f d show ?thesis by (intro that) simp_all
qed

text \<open>The sample the serial loop body stores is then the sample of the contract,
  saturated to \<open>[0, 255]\<close>, and the normalised sum is a number.\<close>

lemma filter_value_exact:
  assumes "wf_kernel kern" and "integer_weights kern" and "integer_divisor kern"
  shows "filter_value input kern (x, y) = spec_filter_sample input kern 255 x y"
    and "normalised_sum input kern (x, y) \<noteq> NaN"
proof -
  from convolve_sum_exact [OF assms(1,2), of input x y] obtain S :: int where
    S: "convolve_sum input kern x y = Finite (of_int S)"
      "of_int S = spec_weighted_sum input kern x y" "\<bar>S\<bar> < 2 ^ 24" by blast
  from integer_divisorD [OF assms(3)] obtain d :: int where
    d: "divisor kern = Finite (of_int d)" "1 \<le> d" "d \<le> 2 ^ 16" by blast
  have n: "normalised_sum input kern (x, y) = round_float (of_int S / of_int d)"
    using d(2) by (simp add: normalised_sum_def S(1) d(1))
  from saturate_quotient [OF S(3) d(2,3)] obtain r where
    r: "round_float (of_int S / of_int d) = Finite r"
      "static_cast_uint8 (std_max (Finite 0) (std_min (Finite 255) (Finite r))) =
         float_to_uint8 (max 0 (min 255 (of_int S / of_int d)))" by blast
  show "normalised_sum input kern (x, y) \<noteq> NaN" by (simp add: n r(1))
  show "filter_value input kern (x, y) = spec_filter_sample input kern 255 x y"
    by (simp add: filter_value_def n r spec_filter_sample_def S(2) [symmetric] d(1) value_of_def)
qed

text \<open>Every kernel the lookup returns is well-formed, has integer weights of small
  mass and an integer divisor.\<close>

lemma catalogue_kernels:
  "list_all (\<lambda>k. wf_kernel k \<and> integer_weights k \<and> integer_divisor k)
     [box_blur_3x3, gaussian_blur_3x3, sharpen_3x3, sharpen_strong_3x3, sobel_x_3x3,
      sobel_y_3x3, prewitt_x_3x3, prewitt_y_3x3, laplacian_3x3, emboss_3x3, identity_3x3,
      box_blur_5x5, gaussian_blur_5x5, unsharp_mask_5x5, sobel_x_5x5, sobel_y_5x5, log_5x5]"
  by code_simp

lemma lookup_in_catalogue:
  assumes "get_kernel_by_name name = Inr k"
  shows "k \<in> set [box_blur_3x3, gaussian_blur_3x3, sharpen_3x3, sharpen_strong_3x3, sobel_x_3x3,
      sobel_y_3x3, prewitt_x_3x3, prewitt_y_3x3, laplacian_3x3, emboss_3x3, identity_3x3,
      box_blur_5x5, gaussian_blur_5x5, unsharp_mask_5x5, sobel_x_5x5, sobel_y_5x5, log_5x5]"
  using assms unfolding get_kernel_by_name_def Let_def
  by (simp split: if_splits)

lemma lookup_kernel_exact:
  assumes "get_kernel_by_name name = Inr k"
  shows "wf_kernel k" and "integer_weights k" and "integer_divisor k"
  using catalogue_kernels lookup_in_catalogue [OF assms] unfolding list_all_iff by blast+

section \<open>The serial filter against its contract\<close>

lemma serial_sample_exact:
  assumes "wf_image input" and "wf_kernel kern"
    and "integer_weights kern" and "integer_divisor kern"
    and "0 \<le> x" and "x < width input" and "0 \<le> y" and "y < height input"
  shows "pixel (apply_filter_serial input kern) x y = spec_filter_sample input kern 255 x y"
proof -
  have "(x, y) \<in> grid input" using assms by (simp add: grid_def)
  then show ?thesis
    using serial_pixel_value [OF assms(1)] filter_value_exact(1) [OF assms(2,3,4)] by simp
qed

text \<open>The values of the concrete inputs.\<close>

lemma upto_m1_1: "[-1..1] = [-1, 0, (1 :: int)]"
  by code_simp

lemma upto_0_0: "[- 0..0] = [0 :: int]"
  by code_simp

lemma radius_3: "size_k kern = 3 \<Longrightarrow> radius kern = 1"
  by (simp add: radius_def signed_divide_int_def)

lemma radius_1: "size_k kern = 1 \<Longrightarrow> radius kern = 0"
  by (simp add: radius_def signed_divide_int_def)

lemma image_1x1_pixel: "pixel (image_1x1 v) (max 0 (min a 0)) (max 0 (min b 0)) = v"
  by (simp add: pixel_def image_1x1_def max_def min_def)

lemma image_1x1_grid: "(0, 0) \<in> grid (image_1x1 v)" "wf_image (image_1x1 v)"
  by (simp_all add: grid_def image_1x1_def wf_image_def INT_MAX_def)

lemma round_float_absorb:
  "round_float 1677721600 = Finite 1677721600"
  "round_float 1677721700 = Finite 1677721728"
  "round_float (- 1677721600) = Finite (- 1677721600)"
  using round_float_binade [of 30 1677721600] round_float_binade [of 30 1677721700]
    round_float_binade [of 30 "- 1677721600"]
  by (simp_all add: round_to_even_def)

lemma convolve_sum_absorb: "convolve_sum (image_1x1 100) kernel_absorb 0 0 = Finite 128"
proof -
  have r: "radius kernel_absorb = 1" by (rule radius_3) (simp add: kernel_absorb_def)
  have w: "width (image_1x1 100) - 1 = 0" "height (image_1x1 100) - 1 = 0"
    by (simp_all add: image_1x1_def)
  show ?thesis
    unfolding convolve_sum_def r Let_def upto_m1_1 w image_1x1_pixel
    by (simp add: kernel_at_def kernel_absorb_def uint8_to_float_def round_float_absorb
        round_float_Ints)
qed

lemma normalised_sum_absorb: "normalised_sum (image_1x1 100) kernel_absorb (0, 0) = Finite 128"
proof -
  have "divisor kernel_absorb = Finite 1" by (simp add: kernel_absorb_def)
  then show ?thesis
    by (simp add: normalised_sum_def convolve_sum_absorb round_float_Ints)
qed

lemma serial_pixel_absorb: "pixel (apply_filter_serial (image_1x1 100) kernel_absorb) 0 0 = 128"
  using serial_pixel_value [OF image_1x1_grid(2) image_1x1_grid(1), of 100 kernel_absorb]
  by (simp add: filter_value_def normalised_sum_absorb std_max_def std_min_def
      static_cast_uint8_def float_to_uint8_def)

lemma sharpen_exact: "wf_kernel sharpen_3x3" "integer_weights sharpen_3x3" "integer_divisor sharpen_3x3"
  by code_simp+

lemma image_max100_wf: "wf_image image_max100"
  by code_simp

lemma serial_pixel_max100: "pixel (apply_filter_serial image_max100 sharpen_3x3) 0 0 = 200"
proof -
  have "spec_filter_sample image_max100 sharpen_3x3 255 0 0 = 200" by code_simp
  then show ?thesis
    using serial_sample_exact [OF image_max100_wf sharpen_exact, of 0 0]
    by (simp add: image_max100_def)
qed

text \<open>
  Claim C2, amended. For a well-formed image and a kernel of integer weights of small
  mass with an integer divisor (every kernel of the catalogue), the output of the
  serial filter has the dimensions of the input, and its sample at every coordinate
  \<open>(x, y)\<close> of the image is the weighted sum of the contract, divided by the divisor,
  saturated to \<open>[0, 255]\<close> (the constant, not the input's max-value) and cut to its
  integer part.
\<close>

theorem serial_sample_saturated_to_255:
  assumes "wf_image input" and "wf_kernel kern" and "filter_in_range input kern"
    and "integer_weights kern" and "integer_divisor kern"
    and "0 \<le> x" and "x < width input" and "0 \<le> y" and "y < height input"
  shows "width (apply_filter_serial input kern) = width input \<and>
         height (apply_filter_serial input kern) = height input \<and>
         pixel (apply_filter_serial input kern) x y = spec_filter_sample input kern 255 x y"
  using serial_sample_exact [OF assms(1,2,4,5,6,7,8,9)] by simp

text \<open>
  The claim as the specification states it fails twice. Saturation is not to the
  input's max-value: a 2x1 image with max-value 100 and samples 100, 0 under the
  sharpen kernel gets 200 at \<open>(0, 0)\<close>, where saturation to \<open>[0, 100]\<close> would store
  100. And the sum is accumulated in \<^verbatim>\<open>float\<close>: on the 1x1 image of sample 100 under
  the weights \<open>2^24, 1, -2^24, 0, \<dots>\<close> with divisor 1 the second product is lost in
  the rounding of the partial sum, and the code stores 128 where the sum of the
  contract is 100.
\<close>

theorem serial_sample_not_saturated_to_max_val:
  "wf_image image_max100 \<and> wf_kernel sharpen_3x3 \<and>
   filter_in_range image_max100 sharpen_3x3 \<and>
   pixel (apply_filter_serial image_max100 sharpen_3x3) 0 0 = 200 \<and>
   spec_filter_sample image_max100 sharpen_3x3 (real_of_int (max_val image_max100)) 0 0 = 100 \<and>
   wf_image (image_1x1 100) \<and> wf_kernel kernel_absorb \<and>
   filter_in_range (image_1x1 100) kernel_absorb \<and>
   pixel (apply_filter_serial (image_1x1 100) kernel_absorb) 0 0 = 128 \<and>
   spec_filter_sample (image_1x1 100) kernel_absorb
     (real_of_int (max_val (image_1x1 100))) 0 0 = 100"
proof -
  have "filter_in_range image_max100 sharpen_3x3" by code_simp
  moreover have "spec_filter_sample image_max100 sharpen_3x3
      (real_of_int (max_val image_max100)) 0 0 = 100" by code_simp
  moreover have "wf_kernel kernel_absorb" by code_simp
  moreover have "filter_in_range (image_1x1 100) kernel_absorb" by code_simp
  moreover have "spec_filter_sample (image_1x1 100) kernel_absorb
     (real_of_int (max_val (image_1x1 100))) 0 0 = 100" by code_simp
  ultimately show ?thesis
    using image_max100_wf sharpen_exact(1) serial_pixel_max100 image_1x1_grid(2) [of 100]
      serial_pixel_absorb
    by (intro conjI)
qed

theorem serial_sample_saturated_to_255_witness:
  "wf_image image_max100 \<and> wf_kernel sharpen_3x3 \<and> filter_in_range image_max100 sharpen_3x3 \<and>
   integer_weights sharpen_3x3 \<and> integer_divisor sharpen_3x3 \<and>
   width (apply_filter_serial image_max100 sharpen_3x3) = 2 \<and>
   height (apply_filter_serial image_max100 sharpen_3x3) = 1 \<and>
   pixel (apply_filter_serial image_max100 sharpen_3x3) 0 0 =
     spec_filter_sample image_max100 sharpen_3x3 255 0 0 \<and>
   spec_filter_sample image_max100 sharpen_3x3 255 0 0 = 200"
proof -
  have h3: "filter_in_range image_max100 sharpen_3x3" by code_simp
  have v: "spec_filter_sample image_max100 sharpen_3x3 255 0 0 = 200" by code_simp
  have w: "width image_max100 = 2" "height image_max100 = 1" by (simp_all add: image_max100_def)
  show ?thesis
    using serial_sample_saturated_to_255 [OF image_max100_wf sharpen_exact(1) h3
        sharpen_exact(2,3), of 0 0]
      image_max100_wf sharpen_exact h3 v w by simp
qed

section \<open>The parallel and the tiled filter\<close>

lemma parallel_pixel_step:
  "parallel_pixel input kern c (Some out) =
     (if normalised_sum input kern c = NaN then None
      else Some (store_with (clamped_value input kern) c out))"
  by (simp add: parallel_pixel_def split_def Let_def clamp_defined_iff normalised_sum_def
      store_with_def clamped_value_def)

lemma parallel_pixel_None: "parallel_pixel input kern c None = None"
  by (simp add: parallel_pixel_def split_def Let_def)

lemma fold_parallel_pixel_None: "fold (parallel_pixel input kern) cs None = None"
  by (induction cs) (simp_all add: parallel_pixel_None)

text \<open>The loop has a result when no normalised sum it meets is NaN, and then every
  unit of work has stored its clamped value.\<close>

lemma fold_parallel_pixel:
  "fold (parallel_pixel input kern) cs (Some out) =
     (if \<exists>c \<in> set cs. normalised_sum input kern c = NaN then None
      else Some (fold (store_with (clamped_value input kern)) cs out))"
  by (induction cs arbitrary: out) (simp_all add: parallel_pixel_step fold_parallel_pixel_None)

lemma apply_filter_parallel_fold:
  "\<exists>team kind chunk. apply_filter_parallel input kern config runtime =
     fold (parallel_pixel input kern) (runtime team kind chunk (row_iterations input))
       (Some (new_image (width input) (height input) 255))"
  unfolding apply_filter_parallel_def Let_def omp_parallel_for_def
  by (cases "schedule config"; cases "chunk_size config > 0") (simp_all, blast+)

lemma apply_filter_tiled_fold:
  "apply_filter_tiled input kern config runtime =
     fold (parallel_pixel input kern)
       (runtime (team_size config) DYNAMIC None (tile_iterations input config))
       (Some (new_image (width input) (height input) 255))"
  unfolding apply_filter_tiled_def Let_def omp_parallel_for_def
  by (rule refl)

lemma parallel_fields:
  assumes "apply_filter_parallel input kern config runtime = Some out"
  shows "width out = width input" and "height out = height input" and "max_val out = 255"
proof -
  obtain team kind chunk where
    "apply_filter_parallel input kern config runtime =
       fold (parallel_pixel input kern) (runtime team kind chunk (row_iterations input))
         (Some (new_image (width input) (height input) 255))"
    using apply_filter_parallel_fold by blast
  with assms have "out = fold (store_with (clamped_value input kern))
      (runtime team kind chunk (row_iterations input)) (new_image (width input) (height input) 255)"
    by (simp add: fold_parallel_pixel split: if_splits)
  then show "width out = width input" and "height out = height input" and "max_val out = 255"
    by simp_all
qed

lemma tiled_fields:
  assumes "apply_filter_tiled input kern config runtime = Some out"
  shows "width out = width input" and "height out = height input" and "max_val out = 255"
proof -
  from assms have "out = fold (store_with (clamped_value input kern))
      (runtime (team_size config) DYNAMIC None (tile_iterations input config))
      (new_image (width input) (height input) 255)"
    by (simp add: apply_filter_tiled_fold fold_parallel_pixel split: if_splits)
  then show "width out = width input" and "height out = height input" and "max_val out = 255"
    by simp_all
qed

text \<open>
  A loop that runs the pixel computations of the whole grid, in any order and any
  number of times: it has the result of the serial filter when no normalised sum is
  NaN, and none when one is.
\<close>

lemma parallel_loop_result:
  assumes "set exec = grid input"
  shows "fold (parallel_pixel input kern) exec (Some (new_image (width input) (height input) 255)) =
     (if \<exists>c \<in> grid input. normalised_sum input kern c = NaN then None
      else Some (apply_filter_serial input kern))"
proof (cases "\<exists>c \<in> grid input. normalised_sum input kern c = NaN")
  case True
  then show ?thesis by (simp add: fold_parallel_pixel assms)
next
  case False
  let ?new = "new_image (width input) (height input) 255"
  have "fold (store_with (clamped_value input kern)) exec ?new =
        fold (store_with (filter_value input kern)) (concat (row_iterations input)) ?new"
  proof (rule fold_store_cong)
    show "\<forall>c \<in> set exec. in_columns (width ?new) c"
      using assms by (simp add: grid_in_columns)
    show "set exec = set (concat (row_iterations input))"
      unfolding set_row_iterations by (rule assms)
    show "clamped_value input kern c = filter_value input kern c" if "c \<in> set exec" for c
      using that False assms by (simp add: clamped_value_def filter_value_def clamp_saturate)
  qed
  with False show ?thesis
    by (simp add: fold_parallel_pixel assms apply_filter_serial_fold)
qed

lemma apply_filter_parallel_result:
  assumes "omp_conforming runtime (row_iterations input)"
  shows "apply_filter_parallel input kern config runtime =
     (if \<exists>c \<in> grid input. normalised_sum input kern c = NaN then None
      else Some (apply_filter_serial input kern))"
proof -
  obtain team kind chunk where
    "apply_filter_parallel input kern config runtime =
       fold (parallel_pixel input kern) (runtime team kind chunk (row_iterations input))
         (Some (new_image (width input) (height input) 255))"
    using apply_filter_parallel_fold by blast
  moreover have "set (runtime team kind chunk (row_iterations input)) = grid input"
    using omp_execution_set [OF omp_conformingD [OF assms]] by (simp only: set_row_iterations)
  ultimately show ?thesis by (simp only: parallel_loop_result)
qed

lemma apply_filter_tiled_result:
  assumes "wf_image input" and "tiles_in_range input config"
    and "omp_conforming runtime (tile_iterations input config)"
  shows "apply_filter_tiled input kern config runtime =
     (if \<exists>c \<in> grid input. normalised_sum input kern c = NaN then None
      else Some (apply_filter_serial input kern))"
proof -
  have "set (concat (tile_iterations input config)) = grid input"
    using assms(1,2) by (intro set_tile_iterations) (simp_all add: wf_image_def tiles_in_range_def)
  then have "set (runtime (team_size config) DYNAMIC None (tile_iterations input config)) =
      grid input"
    using omp_execution_set [OF omp_conformingD [OF assms(3)]] by simp
  then show ?thesis
    unfolding apply_filter_tiled_fold by (rule parallel_loop_result)
qed

text \<open>The sample a parallel loop over the grid leaves at a coordinate pair.\<close>

lemma parallel_loop_pixel:
  assumes "wf_image input" and "set exec = grid input" and "(x, y) \<in> grid input"
    and "fold (parallel_pixel input kern) exec
           (Some (new_image (width input) (height input) 255)) = Some out"
  shows "pixel out x y = clamped_value input kern (x, y)"
proof -
  from assms(4) have "out = fold (store_with (clamped_value input kern)) exec
      (new_image (width input) (height input) 255)"
    by (simp add: fold_parallel_pixel split: if_splits)
  then show ?thesis using pixel_fold_store [OF assms(1,2,3)] by simp
qed

lemma apply_filter_parallel_pixel:
  assumes "wf_image input" and "omp_conforming runtime (row_iterations input)"
    and "(x, y) \<in> grid input"
    and "apply_filter_parallel input kern config runtime = Some out"
  shows "pixel out x y = clamped_value input kern (x, y)"
proof -
  obtain team kind chunk where
    "apply_filter_parallel input kern config runtime =
       fold (parallel_pixel input kern) (runtime team kind chunk (row_iterations input))
         (Some (new_image (width input) (height input) 255))"
    using apply_filter_parallel_fold by blast
  moreover have "set (runtime team kind chunk (row_iterations input)) = grid input"
    using omp_execution_set [OF omp_conformingD [OF assms(2)]] by (simp only: set_row_iterations)
  ultimately show ?thesis
    using parallel_loop_pixel [OF assms(1) _ assms(3)] assms(4) by simp
qed

lemma apply_filter_tiled_pixel:
  assumes "wf_image input" and "tiles_in_range input config"
    and "omp_conforming runtime (tile_iterations input config)"
    and "(x, y) \<in> grid input"
    and "apply_filter_tiled input kern config runtime = Some out"
  shows "pixel out x y = clamped_value input kern (x, y)"
proof -
  have "set (concat (tile_iterations input config)) = grid input"
    using assms(1,2) by (intro set_tile_iterations) (simp_all add: wf_image_def tiles_in_range_def)
  then have "set (runtime (team_size config) DYNAMIC None (tile_iterations input config)) =
      grid input"
    using omp_execution_set [OF omp_conformingD [OF assms(3)]] by simp
  then show ?thesis
    using parallel_loop_pixel [OF assms(1) _ assms(4)] assms(5)
    by (simp add: apply_filter_tiled_fold)
qed

section \<open>Dimensions and max-value of the outputs\<close>

lemma max100_rows: "omp_conforming example_runtime (row_iterations image_max100)"
  by (rule example_runtime_conforming)

lemma max100_tiles:
  "tiles_in_range image_max100 config_dynamic_tiled"
  "omp_conforming example_runtime (tile_iterations image_max100 config_dynamic_tiled)"
  by code_simp (rule example_runtime_conforming)

lemma max100_no_NaN: "\<not> (\<exists>c \<in> grid image_max100. normalised_sum image_max100 sharpen_3x3 c = NaN)"
  using filter_value_exact(2) [OF sharpen_exact, of image_max100] by auto

text \<open>
  Claim C10. The output of the serial filter has the width and height of the input and
  max-value 255, whatever the input's max-value is, and so has the buffer the parallel
  and the tiled filter return, which they do under a conforming runtime when no
  normalised sum is NaN. The sample of the serial output at a coordinate pair of the
  image is the normalised sum after \<^verbatim>\<open>std::max(0.0f, std::min(255.0f, sum))\<close>, cast;
  the sample of a parallel or tiled output is the normalised sum after
  \<^verbatim>\<open>std::clamp(sum, 0.0f, 255.0f)\<close>, cast: the bound is the constant 255 in each.
\<close>

theorem output_max_val_255:
  "width (apply_filter_serial input kern) = width input \<and>
   height (apply_filter_serial input kern) = height input \<and>
   max_val (apply_filter_serial input kern) = 255 \<and>
   (\<forall>out. apply_filter_parallel input kern config runtime = Some out \<longrightarrow>
      width out = width input \<and> height out = height input \<and> max_val out = 255) \<and>
   (\<forall>out. apply_filter_tiled input kern config runtime = Some out \<longrightarrow>
      width out = width input \<and> height out = height input \<and> max_val out = 255) \<and>
   (omp_conforming runtime (row_iterations input) \<and>
    (\<forall>c \<in> grid input. normalised_sum input kern c \<noteq> NaN) \<longrightarrow>
      (\<exists>out. apply_filter_parallel input kern config runtime = Some out)) \<and>
   (wf_image input \<and> tiles_in_range input config \<and>
    omp_conforming runtime (tile_iterations input config) \<and>
    (\<forall>c \<in> grid input. normalised_sum input kern c \<noteq> NaN) \<longrightarrow>
      (\<exists>out. apply_filter_tiled input kern config runtime = Some out)) \<and>
   (wf_image input \<and> 0 \<le> x \<and> x < width input \<and> 0 \<le> y \<and> y < height input \<longrightarrow>
      pixel (apply_filter_serial input kern) x y =
        static_cast_uint8 (std_max (Finite 0) (std_min (Finite 255)
          (fdiv (convolve_sum input kern x y) (divisor kern))))) \<and>
   (wf_image input \<and> 0 \<le> x \<and> x < width input \<and> 0 \<le> y \<and> y < height input \<and>
    omp_conforming runtime (row_iterations input) \<longrightarrow>
      (\<forall>out. apply_filter_parallel input kern config runtime = Some out \<longrightarrow>
         pixel out x y =
           static_cast_uint8 (std_clamp (fdiv (convolve_sum input kern x y) (divisor kern))
             (Finite 0) (Finite 255)))) \<and>
   (wf_image input \<and> 0 \<le> x \<and> x < width input \<and> 0 \<le> y \<and> y < height input \<and>
    tiles_in_range input config \<and> omp_conforming runtime (tile_iterations input config) \<longrightarrow>
      (\<forall>out. apply_filter_tiled input kern config runtime = Some out \<longrightarrow>
         pixel out x y =
           static_cast_uint8 (std_clamp (fdiv (convolve_sum input kern x y) (divisor kern))
             (Finite 0) (Finite 255))))"
proof -
  have g: "(x, y) \<in> grid input" if "0 \<le> x \<and> x < width input \<and> 0 \<le> y \<and> y < height input"
    using that by (simp add: grid_def)
  have serial: "pixel (apply_filter_serial input kern) x y =
        static_cast_uint8 (std_max (Finite 0) (std_min (Finite 255)
          (fdiv (convolve_sum input kern x y) (divisor kern))))"
    if "wf_image input" and "0 \<le> x \<and> x < width input \<and> 0 \<le> y \<and> y < height input"
    using serial_pixel_value [OF that(1) g [OF that(2)]]
    by (simp add: filter_value_def normalised_sum_def)
  have par: "pixel out x y =
           static_cast_uint8 (std_clamp (fdiv (convolve_sum input kern x y) (divisor kern))
             (Finite 0) (Finite 255))"
    if "wf_image input" and "0 \<le> x \<and> x < width input \<and> 0 \<le> y \<and> y < height input"
      and "omp_conforming runtime (row_iterations input)"
      and "apply_filter_parallel input kern config runtime = Some out" for out
    using apply_filter_parallel_pixel [OF that(1,3) g [OF that(2)] that(4)]
    by (simp add: clamped_value_def normalised_sum_def)
  have til: "pixel out x y =
           static_cast_uint8 (std_clamp (fdiv (convolve_sum input kern x y) (divisor kern))
             (Finite 0) (Finite 255))"
    if "wf_image input" and "0 \<le> x \<and> x < width input \<and> 0 \<le> y \<and> y < height input"
      and "tiles_in_range input config" and "omp_conforming runtime (tile_iterations input config)"
      and "apply_filter_tiled input kern config runtime = Some out" for out
    using apply_filter_tiled_pixel [OF that(1,3,4) g [OF that(2)] that(5)]
    by (simp add: clamped_value_def normalised_sum_def)
  have par_ex: "\<exists>out. apply_filter_parallel input kern config runtime = Some out"
    if "omp_conforming runtime (row_iterations input)"
      and "\<forall>c \<in> grid input. normalised_sum input kern c \<noteq> NaN"
    using apply_filter_parallel_result [OF that(1), of kern config] that(2) by simp
  have til_ex: "\<exists>out. apply_filter_tiled input kern config runtime = Some out"
    if "wf_image input" and "tiles_in_range input config"
      and "omp_conforming runtime (tile_iterations input config)"
      and "\<forall>c \<in> grid input. normalised_sum input kern c \<noteq> NaN"
    using apply_filter_tiled_result [OF that(1,2,3), of kern] that(4) by simp
  show ?thesis
    using serial par til par_ex til_ex
    by (intro conjI allI impI) (simp_all add: parallel_fields tiled_fields)
qed

theorem output_max_val_255_witness:
  "max_val image_max100 = 100 \<and>
   max_val (apply_filter_serial image_max100 sharpen_3x3) = 255 \<and>
   wf_image image_max100 \<and> tiles_in_range image_max100 config_dynamic_tiled \<and>
   omp_conforming example_runtime (row_iterations image_max100) \<and>
   omp_conforming example_runtime (tile_iterations image_max100 config_dynamic_tiled) \<and>
   apply_filter_parallel image_max100 sharpen_3x3 config_dynamic_tiled example_runtime =
     Some (apply_filter_serial image_max100 sharpen_3x3) \<and>
   apply_filter_tiled image_max100 sharpen_3x3 config_dynamic_tiled example_runtime =
     Some (apply_filter_serial image_max100 sharpen_3x3) \<and>
   pixel (apply_filter_serial image_max100 sharpen_3x3) 0 0 = 200 \<and>
   static_cast_uint8 (std_max (Finite 0) (std_min (Finite 255)
     (fdiv (convolve_sum image_max100 sharpen_3x3 0 0) (divisor sharpen_3x3)))) = 200 \<and>
   static_cast_uint8 (std_clamp (fdiv (convolve_sum image_max100 sharpen_3x3 0 0)
     (divisor sharpen_3x3)) (Finite 0) (Finite 255)) = 200"
proof -
  note t = output_max_val_255 [of image_max100 sharpen_3x3 config_dynamic_tiled example_runtime 0 0]
  have w: "max_val image_max100 = 100" "0 \<le> (0 :: int) \<and> 0 < width image_max100 \<and>
      0 \<le> (0 :: int) \<and> 0 < height image_max100"
    by (simp_all add: image_max100_def)
  have p: "apply_filter_parallel image_max100 sharpen_3x3 config_dynamic_tiled example_runtime =
     Some (apply_filter_serial image_max100 sharpen_3x3)"
    using apply_filter_parallel_result [OF max100_rows, of sharpen_3x3 config_dynamic_tiled]
      max100_no_NaN by simp
  have q: "apply_filter_tiled image_max100 sharpen_3x3 config_dynamic_tiled example_runtime =
     Some (apply_filter_serial image_max100 sharpen_3x3)"
    using apply_filter_tiled_result [OF image_max100_wf max100_tiles, of sharpen_3x3]
      max100_no_NaN by simp
  from t have m: "max_val (apply_filter_serial image_max100 sharpen_3x3) = 255" by simp
  from t image_max100_wf w(2) have s: "pixel (apply_filter_serial image_max100 sharpen_3x3) 0 0 =
      static_cast_uint8 (std_max (Finite 0) (std_min (Finite 255)
        (fdiv (convolve_sum image_max100 sharpen_3x3 0 0) (divisor sharpen_3x3))))"
    by blast
  from t image_max100_wf w(2) max100_rows p
  have c: "pixel (apply_filter_serial image_max100 sharpen_3x3) 0 0 =
      static_cast_uint8 (std_clamp (fdiv (convolve_sum image_max100 sharpen_3x3 0 0)
        (divisor sharpen_3x3)) (Finite 0) (Finite 255))"
    by blast
  show ?thesis
    using w(1) m image_max100_wf max100_tiles(1) max100_rows max100_tiles(2) p q
      serial_pixel_max100 s [symmetric] c [symmetric]
    by (simp only: simp_thms)
qed

section \<open>The parallel filter against the serial filter\<close>

lemma round_float_overflow:
  "round_float (255 * 2 ^ 127) = PlusInf"
  "round_float (- (255 * 2 ^ 127)) = MinusInf"
  using round_float_binade [of 127 "255 * 2 ^ 127"] round_float_binade [of 127 "- (255 * 2 ^ 127)"]
  by (simp_all add: round_to_even_def)

lemma convolve_sum_overflow: "convolve_sum (image_1x1 255) kernel_overflow 0 0 = NaN"
proof -
  have r: "radius kernel_overflow = 1" by (rule radius_3) (simp add: kernel_overflow_def)
  have w: "width (image_1x1 255) - 1 = 0" "height (image_1x1 255) - 1 = 0"
    by (simp_all add: image_1x1_def)
  have "round_float (255 * 170141183460469231731687303715884105728) = PlusInf"
    "round_float (- (255 * 170141183460469231731687303715884105728)) = MinusInf"
    using round_float_overflow by simp_all
  then show ?thesis
    unfolding convolve_sum_def r Let_def upto_m1_1 w image_1x1_pixel
    by (simp add: kernel_at_def kernel_overflow_def uint8_to_float_def round_float_Ints)
qed

lemma normalised_sum_overflow: "normalised_sum (image_1x1 255) kernel_overflow (0, 0) = NaN"
  by (simp add: normalised_sum_def convolve_sum_overflow)

lemma list_one: "length xs = 1 \<Longrightarrow> xs ! 0 = v \<Longrightarrow> xs = [v]"
  by (cases xs) auto

lemma serial_data_overflow: "data (apply_filter_serial (image_1x1 255) kernel_overflow) = [255]"
proof (rule list_one)
  show "length (data (apply_filter_serial (image_1x1 255) kernel_overflow)) = 1"
    by (simp add: image_1x1_def)
  have "data (apply_filter_serial (image_1x1 255) kernel_overflow) ! 0 =
      filter_value (image_1x1 255) kernel_overflow (coord_of (width (image_1x1 255)) 0)"
    by (rule serial_data_nth) (simp_all add: image_1x1_grid, simp add: image_1x1_def)
  also have "coord_of (width (image_1x1 255)) 0 = (0, 0)"
    by (simp add: coord_of_def image_1x1_def)
  finally show "data (apply_filter_serial (image_1x1 255) kernel_overflow) ! 0 = 255"
    by (simp add: filter_value_def normalised_sum_overflow saturate_NaN)
qed

text \<open>
  Claim C1 fails on the code. The parallel and the tiled filter return what the serial
  filter returns exactly when no normalised sum is NaN (\<open>apply_filter_parallel_result\<close>
  and \<open>apply_filter_tiled_result\<close>, for every conforming runtime, schedule, chunk
  size, thread count and tile size from 1 on). On the 1x1 image of sample 255 under
  the 3x3 kernel of weights \<open>2^127, 0, \<dots>, 0, -2^127\<close> and divisor 1 the sum is
  \<open>+\<infinity> + (-\<infinity>)\<close>, NaN: the serial filter stores 255, since
  \<^verbatim>\<open>std::min(255.0f, NaN)\<close> is 255, and the parallel and the tiled filter cast the NaN
  that \<^verbatim>\<open>std::clamp\<close> returns, which is undefined behaviour.
\<close>

theorem parallel_undefined_where_serial_stores_255:
  "wf_image (image_1x1 255) \<and> wf_kernel kernel_overflow \<and>
   filter_in_range (image_1x1 255) kernel_overflow \<and>
   tiles_in_range (image_1x1 255) config_dynamic_tiled \<and>
   omp_conforming example_runtime (row_iterations (image_1x1 255)) \<and>
   omp_conforming example_runtime (tile_iterations (image_1x1 255) config_dynamic_tiled) \<and>
   normalised_sum (image_1x1 255) kernel_overflow (0, 0) = NaN \<and>
   data (apply_filter_serial (image_1x1 255) kernel_overflow) = [255] \<and>
   apply_filter_parallel (image_1x1 255) kernel_overflow config_dynamic_tiled example_runtime =
     None \<and>
   apply_filter_tiled (image_1x1 255) kernel_overflow config_dynamic_tiled example_runtime =
     None"
proof -
  have k: "wf_kernel kernel_overflow" by code_simp
  have f: "filter_in_range (image_1x1 255) kernel_overflow" by code_simp
  have t: "tiles_in_range (image_1x1 255) config_dynamic_tiled" by code_simp
  have r: "omp_conforming example_runtime (row_iterations (image_1x1 255))"
    by (rule example_runtime_conforming)
  have i: "omp_conforming example_runtime (tile_iterations (image_1x1 255) config_dynamic_tiled)"
    by (rule example_runtime_conforming)
  have n: "\<exists>c \<in> grid (image_1x1 255). normalised_sum (image_1x1 255) kernel_overflow c = NaN"
    using normalised_sum_overflow image_1x1_grid(1) by blast
  have p: "apply_filter_parallel (image_1x1 255) kernel_overflow config_dynamic_tiled
      example_runtime = None"
    using apply_filter_parallel_result [OF r, of kernel_overflow config_dynamic_tiled] n by simp
  have q: "apply_filter_tiled (image_1x1 255) kernel_overflow config_dynamic_tiled
      example_runtime = None"
    using apply_filter_tiled_result [OF image_1x1_grid(2) t i, of kernel_overflow] n by simp
  show ?thesis
    using image_1x1_grid(2) [of 255] k f t r i normalised_sum_overflow serial_data_overflow p q
    by (intro conjI)
qed

section \<open>Flat images\<close>

lemma clamped_in_grid:
  assumes "0 < width input" and "0 < height input"
  shows "(spec_clamp a (width input), spec_clamp b (height input)) \<in> grid input"
  using assms by (auto simp add: grid_def spec_clamp_def)

lemma flat_pixel:
  assumes "wf_image input" and "\<forall>v \<in> set (data input). v = c" and "p \<in> grid input"
  shows "pixel input (fst p) (snd p) = c"
proof -
  have "offset_of (width input) p < length (data input)"
    using assms(1,3) by (rule offset_in_buffer)
  then have "data input ! offset_of (width input) p \<in> set (data input)" by simp
  with assms(2) show ?thesis by (simp add: pixel_def offset_of_def)
qed

lemma flat_weighted_sum:
  assumes "wf_image input" and "wf_kernel kern" and "\<forall>v \<in> set (data input). v = c"
    and "(x, y) \<in> grid input"
  shows "spec_weighted_sum input kern x y =
           real (unat c) * sum_list (map value_of (data_k kern))"
proof -
  from assms(4) have pos: "0 < width input" "0 < height input" by (auto simp add: grid_def)
  have "pixel input (spec_clamp a (width input)) (spec_clamp b (height input)) = c" for a b
    using flat_pixel [OF assms(1,3) clamped_in_grid [OF pos]] by simp
  then have "spec_weighted_sum input kern x y =
      (\<Sum>ky = - radius kern..radius kern. \<Sum>kx = - radius kern..radius kern.
          real (unat c) * value_of (kernel_at kern (kx + radius kern) (ky + radius kern)))"
    by (simp add: spec_weighted_sum_def)
  also have "\<dots> = real (unat c) * sum_list (map value_of (data_k kern))"
    by (simp add: kernel_sum_over_data [OF assms(2), of value_of, symmetric] sum_distrib_left)
  finally show ?thesis .
qed

lemma float_to_uint8_unat: "float_to_uint8 (real (unat (c :: uint8))) = c"
proof -
  have "\<lfloor>real (unat c)\<rfloor> = int (unat c)" by (rule floor_of_nat)
  moreover have "0 \<le> real (unat c)" by (rule of_nat_0_le_iff)
  moreover have "(word_of_int (int (unat c)) :: uint8) = c" by simp
  ultimately show ?thesis unfolding float_to_uint8_def by (simp only: if_True)
qed

lemma saturate_byte:
  assumes "0 \<le> b" and "b \<le> 255"
  shows "std_max (Finite 0) (std_min (Finite 255) (Finite b)) = Finite b"
  using assms by (auto simp add: std_max_def std_min_def)

text \<open>On a flat image a kernel of integer weights of small mass whose weights sum to
  its divisor gives the normalised sum \<open>c * d / d\<close>, which is \<open>c\<close>, a \<^verbatim>\<open>float\<close>.\<close>

lemma filter_value_flat:
  assumes "wf_image input" and "wf_kernel kern" and "\<forall>v \<in> set (data input). v = c"
    and "integer_weights kern"
    and "divisor kern = Finite (sum_list (map value_of (data_k kern)))"
    and "p \<in> grid input"
  shows "filter_value input kern p = c"
proof -
  define b where "b = real (unat c)"
  define D where "D = sum_list (map value_of (data_k kern))"
  have b: "b \<in> \<int>" "0 \<le> b" "b \<le> 255"
    unfolding b_def by (rule Ints_of_nat, rule of_nat_0_le_iff, rule unat_uint8_le)
  have D0: "D \<noteq> 0" using assms(2,5) by (auto simp add: wf_kernel_def D_def)
  from convolve_sum_exact [OF assms(2,4), of input "fst p" "snd p"] obtain S :: int where
    S: "convolve_sum input kern (fst p) (snd p) = Finite (of_int S)"
      "of_int S = spec_weighted_sum input kern (fst p) (snd p)" by blast
  have "spec_weighted_sum input kern (fst p) (snd p) = b * D"
    unfolding b_def D_def using assms(6) by (intro flat_weighted_sum [OF assms(1,2,3)]) simp
  with S have "convolve_sum input kern (fst p) (snd p) = Finite (b * D)" by simp
  then have "normalised_sum input kern p = round_float (b * D / D)"
    using D0 by (simp add: normalised_sum_def assms(5) D_def [symmetric])
  also have "\<dots> = round_float b" using D0 by simp
  also have "\<dots> = Finite b" using b by (intro round_float_Ints) simp_all
  finally have "filter_value input kern p = static_cast_uint8 (Finite b)"
    using b by (simp add: filter_value_def saturate_byte)
  also have "\<dots> = c"
    unfolding b_def static_cast_uint8_def by (simp only: float.case float_to_uint8_unat)
  finally show ?thesis .
qed

lemma upto_0_0_plain: "[0..0] = [0 :: int]"
  by code_simp

lemma convolve_sum_seventh: "convolve_sum (image_1x1 7) kernel_seventh 0 0 = Finite 1"
proof -
  have r: "radius kernel_seventh = 0" by (rule radius_1) (simp add: kernel_seventh_def)
  have w: "width (image_1x1 7) - 1 = 0" "height (image_1x1 7) - 1 = 0"
    by (simp_all add: image_1x1_def)
  have "round_float (7 * (9586981 / 67108864)) = Finite 1"
    using round_float_binade [of 0 "7 * (9586981 / 67108864)"]
    by (simp add: round_to_even_def)
  then show ?thesis
    unfolding convolve_sum_def r Let_def upto_0_0 w image_1x1_pixel
    by (simp add: kernel_at_def kernel_seventh_def uint8_to_float_def round_float_Ints
        upto_0_0_plain)
qed

lemma normalised_sum_seventh:
  "normalised_sum (image_1x1 7) kernel_seventh (0, 0) = Finite (14680063 / 2097152)"
proof -
  have d: "divisor kernel_seventh = Finite (9586981 / 67108864)"
    by (simp add: kernel_seventh_def)
  have "round_float (1 / (9586981 / 67108864)) = Finite (14680063 / 2097152)"
    using round_float_binade [of 2 "1 / (9586981 / 67108864)"]
    by (simp add: round_to_even_def)
  then show ?thesis
    by (simp add: normalised_sum_def convolve_sum_seventh d)
qed

lemma serial_data_seventh: "data (apply_filter_serial (image_1x1 7) kernel_seventh) = [6]"
proof (rule list_one)
  show "length (data (apply_filter_serial (image_1x1 7) kernel_seventh)) = 1"
    by (simp add: image_1x1_def)
  have "data (apply_filter_serial (image_1x1 7) kernel_seventh) ! 0 =
      filter_value (image_1x1 7) kernel_seventh (coord_of (width (image_1x1 7)) 0)"
    by (rule serial_data_nth) (simp_all add: image_1x1_grid, simp add: image_1x1_def)
  also have "coord_of (width (image_1x1 7)) 0 = (0, 0)"
    by (simp add: coord_of_def image_1x1_def)
  finally show "data (apply_filter_serial (image_1x1 7) kernel_seventh) ! 0 = 6"
    by (simp add: filter_value_def normalised_sum_seventh std_max_def std_min_def
        static_cast_uint8_def float_to_uint8_def)
qed

text \<open>
  Claim C5, amended. A constant-valued image filtered by a kernel of integer weights
  of small mass whose weights sum to its divisor comes back with every sample equal to
  that constant; so does the 4x4 image of samples 100 under the 3x3 box blur.
\<close>

theorem flat_image_preserved:
  assumes "wf_image input" and "wf_kernel kern" and "filter_in_range input kern"
    and "\<forall>v \<in> set (data input). v = c"
    and "integer_weights kern"
    and "divisor kern = Finite (sum_list (map value_of (data_k kern)))"
  shows "width (apply_filter_serial input kern) = width input \<and>
         height (apply_filter_serial input kern) = height input \<and>
         data (apply_filter_serial input kern) = data input \<and>
         (\<forall>v \<in> set (data (apply_filter_serial input kern)). v = c)"
proof -
  let ?out = "apply_filter_serial input kern"
  have len: "length (data ?out) = length (data input)"
    using assms(1) by (simp add: wf_image_def)
  have "data ?out = data input"
  proof (rule nth_equalityI [OF len])
    fix i assume "i < length (data ?out)"
    then have i: "i < length (data input)" using len by simp
    then have "data input ! i = c" using assms(4) by simp
    moreover have "data ?out ! i = c"
      using serial_data_nth [OF assms(1) i, of kern]
        filter_value_flat [OF assms(1,2,4,5,6) coord_in_grid(1) [OF assms(1) i]]
      by simp
    ultimately show "data ?out ! i = data input ! i" by simp
  qed
  then show ?thesis using assms(4) by simp
qed

text \<open>
  The claim as the specification states it, for every kernel whose weights sum to its
  divisor, fails: the 1x1 image of sample 7 under the 1x1 kernel whose weight and
  divisor are both the \<^verbatim>\<open>float\<close> nearest to \<open>1/7\<close>. The product rounds to 1, the
  quotient of 1 by the divisor rounds to the \<^verbatim>\<open>float\<close> below 7, and the cast drops
  the fraction: the code stores 6.
\<close>

theorem flat_image_not_preserved:
  "wf_image (image_1x1 7) \<and> wf_kernel kernel_seventh \<and>
   filter_in_range (image_1x1 7) kernel_seventh \<and>
   data (image_1x1 7) = [7] \<and>
   divisor kernel_seventh = Finite (sum_list (map value_of (data_k kernel_seventh))) \<and>
   data (apply_filter_serial (image_1x1 7) kernel_seventh) = [6]"
proof -
  have "wf_kernel kernel_seventh" by code_simp
  moreover have "filter_in_range (image_1x1 7) kernel_seventh" by code_simp
  moreover have "data (image_1x1 7) = [7]" by (simp add: image_1x1_def)
  moreover have "divisor kernel_seventh =
      Finite (sum_list (map value_of (data_k kernel_seventh)))"
    by (simp add: kernel_seventh_def value_of_def)
  ultimately show ?thesis
    using image_1x1_grid(2) [of 7] serial_data_seventh by (intro conjI)
qed

theorem flat_image_preserved_witness:
  "wf_image image_4x4_flat \<and> wf_kernel box_blur_3x3 \<and> filter_in_range image_4x4_flat box_blur_3x3 \<and>
   data image_4x4_flat = replicate 16 100 \<and>
   integer_weights box_blur_3x3 \<and>
   divisor box_blur_3x3 = Finite (sum_list (map value_of (data_k box_blur_3x3))) \<and>
   data (apply_filter_serial image_4x4_flat box_blur_3x3) = replicate 16 100"
proof -
  have h1: "wf_image image_4x4_flat"
    by (simp add: wf_image_def image_4x4_flat_def INT_MAX_def)
  have h2: "wf_kernel box_blur_3x3" by code_simp
  have h3: "filter_in_range image_4x4_flat box_blur_3x3" by code_simp
  have d: "data image_4x4_flat = replicate 16 100"
    by (simp add: image_4x4_flat_def)
  have h4: "\<forall>v \<in> set (data image_4x4_flat). v = 100"
    unfolding d by simp
  have h5: "integer_weights box_blur_3x3" by code_simp
  have h6: "divisor box_blur_3x3 = Finite (sum_list (map value_of (data_k box_blur_3x3)))"
    by (simp add: box_blur_3x3_def value_of_def)
  have "data (apply_filter_serial image_4x4_flat box_blur_3x3) = data image_4x4_flat"
    using flat_image_preserved [OF h1 h2 h3 h4 h5 h6] by (rule conjunct1 [OF conjunct2 [OF conjunct2]])
  then have r: "data (apply_filter_serial image_4x4_flat box_blur_3x3) = replicate 16 100"
    by (simp only: d)
  show ?thesis
    using h1 h2 h3 d h5 h6 r by (intro conjI)
qed

section \<open>Sobel edge detection on flat images\<close>

lemma sobel_pixel_store: "sobel_pixel input = store_with (sobel_value input)"
  by (rule ext)+ (simp add: sobel_pixel_def store_with_def sobel_value_def split_def Let_def)

lemma sobel_serial_fold:
  "sobel_edge_detection_serial input =
     fold (store_with (sobel_value input)) (concat (row_iterations input))
       (new_image (width input) (height input) 255)"
  unfolding sobel_edge_detection_serial_def row_iterations_def sobel_pixel_store
  by (rule fold_nested)

lemma sobel_parallel_fold:
  "sobel_edge_detection_parallel input config runtime =
     fold (store_with (sobel_value input))
       (runtime (team_size config) STATIC None (row_iterations input))
       (new_image (width input) (height input) 255)"
  unfolding sobel_edge_detection_parallel_def sobel_pixel_store Let_def omp_parallel_for_def
  by (rule refl)

lemma flat_clamped_pixel:
  assumes "wf_image input" and "\<forall>v \<in> set (data input). v = c" and "p \<in> grid input"
  shows "pixel input (max 0 (min a (width input - 1))) (max 0 (min b (height input - 1))) = c"
proof -
  from assms(3) have pos: "0 < width input" "0 < height input" by (auto simp add: grid_def)
  show ?thesis
    using flat_pixel [OF assms(1,2) clamped_in_grid [OF pos, of a b]]
    by (simp add: spec_clamp_def)
qed

lemma sobel_gradient_flat:
  assumes "wf_image input" and "\<forall>v \<in> set (data input). v = c" and "(x, y) \<in> grid input"
  shows "sobel_gradient input x y = (0, 0)"
  unfolding sobel_gradient_def upto_m1_1 Let_def
  by (simp add: flat_clamped_pixel [OF assms] sobel_x_def sobel_y_def)

lemma sobel_value_flat:
  assumes "wf_image input" and "\<forall>v \<in> set (data input). v = c" and "p \<in> grid input"
  shows "sobel_value input p = 0"
proof -
  have "sobel_gradient input (fst p) (snd p) = (0, 0)"
    using sobel_gradient_flat [OF assms(1,2), of "fst p" "snd p"] assms(3) by simp
  then show ?thesis
    by (simp add: sobel_value_def float_to_uint8_def)
qed

lemma fold_store_zero:
  assumes "set cs \<subseteq> grid input" and "\<And>p. p \<in> grid input \<Longrightarrow> g p = 0"
  shows "data (fold (store_with g) cs (new_image (width input) (height input) m)) =
           replicate (nat (width input * height input)) 0"
proof (rule nth_equalityI)
  let ?out = "new_image (width input) (height input) m"
  show "length (data (fold (store_with g) cs ?out)) =
        length (replicate (nat (width input * height input)) (0 :: uint8))"
    by simp
  fix i assume "i < length (data (fold (store_with g) cs ?out))"
  then have i: "i < length (data ?out)" by simp
  have cols: "\<forall>p \<in> set cs. in_columns (width ?out) p"
    using assms(1) by (auto simp add: grid_in_columns)
  have "g (coord_of (width input) i) = 0" if "i \<in> offset_of (width input) ` set cs"
  proof -
    from that obtain p where p: "p \<in> set cs" "i = offset_of (width input) p" by blast
    then have "p \<in> grid input" using assms(1) by blast
    moreover from this have "coord_of (width input) i = p"
      unfolding p(2) by (intro coord_of_offset) (rule grid_in_columns)
    ultimately show ?thesis using assms(2) by simp
  qed
  then show "data (fold (store_with g) cs ?out) ! i =
        replicate (nat (width input * height input)) 0 ! i"
    using fold_store_nth [OF cols i, of g] i by simp
qed

text \<open>
  Claim C6. On a constant-valued image Sobel edge detection returns a buffer of zeros:
  every sample of the serial output is zero, and so is every sample of the parallel
  output, under every conforming runtime.
\<close>

theorem sobel_flat_image_is_zero:
  assumes "wf_image input" and "\<forall>v \<in> set (data input). v = c"
    and "omp_conforming runtime (row_iterations input)"
  shows "data (sobel_edge_detection_serial input) = replicate (length (data input)) 0 \<and>
         data (sobel_edge_detection_parallel input config runtime) =
           replicate (length (data input)) 0"
proof -
  have len: "length (data input) = nat (width input * height input)"
    using assms(1) by (simp add: wf_image_def)
  have rows: "set (concat (row_iterations input)) \<subseteq> grid input"
    unfolding set_row_iterations by (rule subset_refl)
  have ex: "set (runtime (team_size config) STATIC None (row_iterations input)) \<subseteq> grid input"
    unfolding omp_execution_set [OF omp_conformingD [OF assms(3)]] by (rule rows)
  note z = sobel_value_flat [OF assms(1,2)]
  show ?thesis
    unfolding sobel_serial_fold sobel_parallel_fold len
    using fold_store_zero [OF rows z] fold_store_zero [OF ex z] by simp
qed

theorem sobel_flat_image_is_zero_witness:
  "wf_image image_8x8_flat \<and> data image_8x8_flat = replicate 64 77 \<and>
   omp_conforming example_runtime (row_iterations image_8x8_flat) \<and>
   data (sobel_edge_detection_serial image_8x8_flat) = replicate 64 0 \<and>
   data (sobel_edge_detection_parallel image_8x8_flat config_dynamic_tiled example_runtime) =
     replicate 64 0"
proof -
  have h1: "wf_image image_8x8_flat"
    by (simp add: wf_image_def image_8x8_flat_def INT_MAX_def)
  have d: "data image_8x8_flat = replicate 64 77"
    by (simp add: image_8x8_flat_def)
  have h2: "\<forall>v \<in> set (data image_8x8_flat). v = 77"
    unfolding d by simp
  have h3: "omp_conforming example_runtime (row_iterations image_8x8_flat)"
    by (rule example_runtime_conforming)
  have l: "length (data image_8x8_flat) = 64" unfolding d by simp
  note t = sobel_flat_image_is_zero [OF h1 h2 h3, of config_dynamic_tiled, unfolded l]
  show ?thesis
    using h1 d h3 t by (intro conjI) simp_all
qed

section \<open>Filter chains\<close>

lemma chain_loop_fold:
  "map get_kernel_by_name names = map Inr ks \<Longrightarrow>
     chain_loop current names = Inr (foldl apply_filter_serial current ks)"
proof (induction names arbitrary: current ks)
  case Nil
  then show ?case by simp
next
  case (Cons n names)
  then obtain k ks' where ks: "ks = k # ks'" by (cases ks) auto
  with Cons.prems have "get_kernel_by_name n = Inr k" "map get_kernel_by_name names = map Inr ks'"
    by simp_all
  with Cons.IH [of ks' "apply_filter_serial current k"] ks show ?case by simp
qed

lemma chain_loop_snoc:
  "chain_loop current (names @ [n]) =
     (case chain_loop current names of
        Inl e \<Rightarrow> Inl e
      | Inr img \<Rightarrow> (case get_kernel_by_name n of
            Inl e \<Rightarrow> Inl e
          | Inr k \<Rightarrow> Inr (apply_filter_serial img k)))"
  by (induction names arbitrary: current) (simp_all split: sum.splits)

text \<open>
  Claim C8. The filter chain over the empty sequence of names returns its input. Over
  a sequence it is a left fold: the chain over \<open>names @ [n]\<close> is the chain over
  \<open>names\<close>, followed by the lookup of \<open>n\<close> and one more serial filter on the result
  (a failed lookup fails the chain); when every name has a kernel, the result is
  \<open>foldl apply_filter_serial\<close> over the kernels, in the order given.
\<close>

theorem filter_chain_is_left_fold:
  "apply_filter_chain_serial input [] = Inr input \<and>
   apply_filter_chain_serial input (names @ [n]) =
     (case apply_filter_chain_serial input names of
        Inl e \<Rightarrow> Inl e
      | Inr img \<Rightarrow> (case get_kernel_by_name n of
            Inl e \<Rightarrow> Inl e
          | Inr k \<Rightarrow> Inr (apply_filter_serial img k))) \<and>
   (map get_kernel_by_name names = map Inr ks \<longrightarrow>
      apply_filter_chain_serial input names = Inr (foldl apply_filter_serial input ks))"
proof -
  have eq: "apply_filter_chain_serial input xs = chain_loop input xs" for xs
    by (cases xs) (simp_all add: apply_filter_chain_serial_def)
  show ?thesis
    unfolding eq using chain_loop_snoc [of input names n] chain_loop_fold [of names ks input]
    by simp
qed

theorem filter_chain_is_left_fold_witness:
  "map get_kernel_by_name [''Blur'', ''sharpen''] = map Inr [box_blur_3x3, sharpen_3x3] \<and>
   apply_filter_chain_serial image_2x2 [''Blur'', ''sharpen''] =
     Inr (apply_filter_serial (apply_filter_serial image_2x2 box_blur_3x3) sharpen_3x3) \<and>
   apply_filter_chain_serial image_2x2 [] = Inr image_2x2"
proof -
  have h: "map get_kernel_by_name [''Blur'', ''sharpen''] = map Inr [box_blur_3x3, sharpen_3x3]"
    by code_simp
  show ?thesis
    using filter_chain_is_left_fold [of image_2x2 "[''Blur'', ''sharpen'']" "[]"
        "[box_blur_3x3, sharpen_3x3]"] h
    by simp
qed

section \<open>The histogram\<close>

lemma local_hist_length:
  "length (fold (\<lambda>i local_hist. local_hist[b i := local_hist ! b i + (1 :: int)]) part h) = length h"
  by (induction part arbitrary: h) simp_all

lemma local_hist_nth:
  assumes "v < length h"
  shows "fold (\<lambda>i local_hist. local_hist[b i := local_hist ! b i + 1]) part h ! v =
           h ! v + int (count_list (map b part) v)"
  using assms
proof (induction part arbitrary: h)
  case Nil
  show ?case by simp
next
  case (Cons i part)
  from Cons.prems have "v < length (h[b i := h ! b i + 1])" by simp
  from Cons.IH [OF this] Cons.prems show ?case
    by (cases "b i = v") simp_all
qed

lemma merge_length:
  fixes H L :: "int list"
  shows "length (fold (\<lambda>i histogram. histogram[i := histogram ! i + L ! i]) [0..<n] H) = length H"
  by (induction n) simp_all

lemma merge_nth:
  fixes H L :: "int list"
  assumes "v < length H"
  shows "fold (\<lambda>i histogram. histogram[i := histogram ! i + L ! i]) [0..<n] H ! v =
           (if v < n then H ! v + L ! v else H ! v)"
proof (induction n)
  case 0
  show ?case by simp
next
  case (Suc n)
  let ?F = "fold (\<lambda>i histogram. histogram[i := histogram ! i + L ! i]) [0..<n] H"
  have len: "length ?F = length H" by (rule merge_length)
  show ?case
  proof (cases "v = n")
    case True
    have "?F ! n = H ! n" using Suc.IH True by simp
    with True assms len show ?thesis by simp
  next
    case False
    with Suc.IH show ?thesis by (simp add: less_Suc_eq)
  qed
qed

lemma merge_all_length:
  fixes H :: "int list"
  shows "length (fold (\<lambda>local_hist histogram.
                 fold (\<lambda>i histogram. histogram[i := histogram ! i + local_hist ! i])
                   [0..<256] histogram) Ls H) = length H"
  by (induction Ls arbitrary: H) (simp_all add: merge_length)

lemma merge_all_nth:
  fixes H :: "int list"
  assumes "length H = 256" and "v < 256"
  shows "fold (\<lambda>local_hist histogram.
                 fold (\<lambda>i histogram. histogram[i := histogram ! i + local_hist ! i])
                   [0..<256] histogram) Ls H ! v = H ! v + sum_list (map (\<lambda>L. L ! v) Ls)"
  using assms
proof (induction Ls arbitrary: H)
  case Nil
  show ?case by simp
next
  case (Cons L Ls)
  let ?H = "fold (\<lambda>i histogram. histogram[i := histogram ! i + L ! i]) [0..<256] H"
  have len: "length ?H = 256" using Cons.prems by (simp add: merge_length)
  have "?H ! v = H ! v + L ! v" using Cons.prems merge_nth [of v H L 256] by simp
  with Cons.IH [OF len Cons.prems(2)] show ?case by simp
qed

lemma count_list_concat: "count_list (concat xss) v = sum_list (map (\<lambda>xs. count_list xs v) xss)"
  by (induction xss) simp_all

lemma count_list_mset: "count_list xs v = count (mset xs) v"
  by (induction xs) simp_all

lemma histogram_bin:
  assumes "omp_partition (length (data img)) threads" and "v < 256"
  shows "compute_histogram_parallel img (\<lambda>n. threads) ! v = int (count_list (map unat (data img)) v)"
    and "length (compute_histogram_parallel img (\<lambda>n. threads)) = 256"
proof -
  let ?b = "\<lambda>i. unat (data img ! i)"
  let ?local = "\<lambda>part. fold (\<lambda>i local_hist. local_hist[?b i := local_hist ! ?b i + 1]) part (replicate 256 (0 :: int))"
  have loc: "?local part ! v = int (count_list (map ?b part) v)" for part
    using local_hist_nth [of v "replicate 256 0" ?b part] assms(2) by simp
  have "compute_histogram_parallel img (\<lambda>n. threads) ! v =
          sum_list (map (\<lambda>L. L ! v) (map ?local threads))"
    unfolding compute_histogram_parallel_def Let_def
    using merge_all_nth [of "replicate 256 0" v "map ?local threads"] assms(2) by simp
  also have "\<dots> = int (sum_list (map (\<lambda>part. count_list (map ?b part) v) threads))"
    by (simp add: comp_def loc) (simp add: sum_list_of_nat [symmetric] comp_def)
  also have "\<dots> = int (count_list (map ?b (concat threads)) v)"
    by (simp add: map_concat count_list_concat comp_def)
  also have "\<dots> = int (count_list (map ?b [0..<length (data img)]) v)"
  proof -
    have "mset (map ?b (concat threads)) = mset (map ?b [0..<length (data img)])"
      using assms(1) unfolding omp_partition_def by (metis mset_map)
    then show ?thesis by (simp only: count_list_mset)
  qed
  also have "map ?b [0..<length (data img)] = map unat (data img)"
    by (rule nth_equalityI) simp_all
  finally show "compute_histogram_parallel img (\<lambda>n. threads) ! v = int (count_list (map unat (data img)) v)" .
  show "length (compute_histogram_parallel img (\<lambda>n. threads)) = 256"
    unfolding compute_histogram_parallel_def Let_def
    by (simp add: merge_all_length)
qed

lemma unat_uint8_less: "unat (c :: uint8) < 256"
  using unsigned_less [of c, where 'a = nat] by simp

lemma histogram_as_map:
  assumes "omp_partition (length (data img)) threads"
  shows "compute_histogram_parallel img (\<lambda>n. threads) =
           map (\<lambda>v. int (count_list (map unat (data img)) v)) [0..<256]"
proof (rule nth_equalityI)
  show len: "length (compute_histogram_parallel img (\<lambda>n. threads)) =
        length (map (\<lambda>v. int (count_list (map unat (data img)) v)) [0..<256])"
    using histogram_bin(2) [OF assms, of 0] by simp
  fix v assume "v < length (compute_histogram_parallel img (\<lambda>n. threads))"
  then have "v < 256" using len by simp
  then show "compute_histogram_parallel img (\<lambda>n. threads) ! v =
        map (\<lambda>v. int (count_list (map unat (data img)) v)) [0..<256] ! v"
    using histogram_bin(1) [OF assms, of v] by simp
qed

lemma omp_partition_single: "omp_partition n (single_worker n)"
  by (simp add: omp_partition_def single_worker_def)

lemma histogram_team:
  "compute_histogram_parallel img team =
     compute_histogram_parallel img (\<lambda>n. team (length (data img)))"
  by (simp add: compute_histogram_parallel_def)

lemma histogram_total:
  assumes "omp_partition (length (data img)) threads"
  shows "sum_list (compute_histogram_parallel img (\<lambda>n. threads)) = int (length (data img))"
proof -
  let ?xs = "map unat (data img)"
  have sub: "set ?xs \<subseteq> {0..<256}"
    using unat_uint8_less by auto
  have "sum_list (compute_histogram_parallel img (\<lambda>n. threads)) =
          int (sum_list (map (count_list ?xs) [0..<256]))"
    unfolding histogram_as_map [OF assms]
    by (simp add: sum_list_of_nat [symmetric] comp_def)
  also have "sum_list (map (count_list ?xs) [0..<256]) = sum (count_list ?xs) {0..<256}"
    by (simp add: interv_sum_list_conv_sum_set_nat)
  also have "\<dots> = length ?xs"
    using sub by (intro sum_count_set) simp_all
  finally show ?thesis by simp
qed

text \<open>
  Claim C3. For every well-formed image and every distribution of the loop's iterations
  over the threads of the team, the histogram has 256 bins, bin \<open>v\<close> is the number of
  samples of value \<open>v\<close>, the bins sum to the sample count \<open>width * height\<close>, and the
  result is the histogram of a single worker: it does not depend on the team. For the
  ten samples 0, ..., 0, 255 bin 0 is 9, bin 255 is 1 and every other bin is 0.
\<close>

theorem histogram_counts_samples:
  assumes "wf_image img" and "omp_partition (length (data img)) (team (length (data img)))"
  shows "length (compute_histogram_parallel img team) = 256 \<and>
         (\<forall>v<256. compute_histogram_parallel img team ! v =
                     int (count_list (map unat (data img)) v)) \<and>
         sum_list (compute_histogram_parallel img team) = int (length (data img)) \<and>
         sum_list (compute_histogram_parallel img team) = width img * height img \<and>
         compute_histogram_parallel img team = compute_histogram_parallel img single_worker"
proof -
  have "int (length (data img)) = width img * height img"
    using assms(1) by (simp add: wf_image_def)
  then show ?thesis
    unfolding histogram_team [of img team] histogram_team [of img single_worker]
    using histogram_bin(1) [OF assms(2)] histogram_bin(2) [OF assms(2), of 0]
      histogram_total [OF assms(2)]
      histogram_as_map [OF assms(2)] histogram_as_map [OF omp_partition_single, of img]
    by simp
qed

theorem histogram_counts_samples_witness:
  "wf_image image_10 \<and>
   omp_partition (length (data image_10)) (example_team (length (data image_10))) \<and>
   compute_histogram_parallel image_10 example_team ! 0 = 9 \<and>
   compute_histogram_parallel image_10 example_team ! 255 = 1 \<and>
   compute_histogram_parallel image_10 example_team ! 128 = 0 \<and>
   sum_list (compute_histogram_parallel image_10 example_team) = 10 \<and>
   compute_histogram_parallel image_10 example_team = 9 # replicate 254 0 @ [1]"
proof -
  let ?H = "compute_histogram_parallel image_10 example_team"
  have h1: "wf_image image_10"
    by (simp add: wf_image_def image_10_def INT_MAX_def)
  have l: "length (data image_10) = 10"
    by (simp add: image_10_def)
  have h2: "omp_partition (length (data image_10)) (example_team (length (data image_10)))"
    unfolding l by code_simp
  note t = histogram_counts_samples [of image_10 example_team, OF h1 h2]
  have d: "map unat (data image_10) = [0, 0, 0, 0, 0, 0, 0, 0, 0, 255]"
    by (simp add: image_10_def)
  have b: "?H ! v = int (count_list [0, 0, 0, 0, 0, 0, 0, 0, 0, 255] v)" if "v < 256" for v
  proof -
    from t have "\<forall>v<256. ?H ! v = int (count_list (map unat (data image_10)) v)"
      by (elim conjE)
    with that show ?thesis unfolding d by simp
  qed
  have b0: "?H ! 0 = 9" using b [of 0] by simp
  have b255: "?H ! 255 = 1" using b [of 255] by simp
  have b128: "?H ! 128 = 0" using b [of 128] by simp
  have "sum_list ?H = int (length (data image_10))" using t by (elim conjE)
  then have s: "sum_list ?H = 10" unfolding l by simp
  have all: "?H = 9 # replicate 254 0 @ [1]" by code_simp
  show ?thesis
    using h1 h2 b0 b255 b128 s all by (intro conjI)
qed

section \<open>Statistics\<close>

lemma DBL_MAX_gt: "255 < DBL_MAX"
  by (simp add: DBL_MAX_def)

lemma statistics_thread:
  "fold (statistics_step img) part (s, q, lo, hi) =
     (s + sum_list (map (sample_at img) part),
      q + sum_list (map (\<lambda>i. sample_at img i * sample_at img i) part),
      fold min (map (sample_at img) part) lo,
      fold max (map (sample_at img) part) hi)"
proof (induction part arbitrary: s q lo hi)
  case Nil
  show ?case by simp
next
  case (Cons i part)
  have "statistics_step img i (s, q, lo, hi) =
      (s + sample_at img i, q + sample_at img i * sample_at img i,
       min (sample_at img i) lo, max (sample_at img i) hi)"
    by (simp add: statistics_step_def sample_at_def Let_def min_def max_def)
  then show ?case
    using Cons.IH by (simp add: algebra_simps)
qed

lemma statistics_team:
  "fold statistics_combine partials (s, q, lo, hi) =
     (s + sum_list (map fst partials),
      q + sum_list (map (\<lambda>p. fst (snd p)) partials),
      fold min (map (\<lambda>p. fst (snd (snd p))) partials) lo,
      fold max (map (\<lambda>p. snd (snd (snd p))) partials) hi)"
proof (induction partials arbitrary: s q lo hi)
  case Nil
  show ?case by simp
next
  case (Cons p ps)
  obtain a b c d where p: "p = (a, b, c, d)" by (cases p)
  have "statistics_combine p (s, q, lo, hi) = (s + a, q + b, min c lo, max d hi)"
    by (simp add: statistics_combine_def p min.commute max.commute)
  then show ?case
    using Cons.IH by (simp add: p algebra_simps)
qed

lemma fold_min_Min: "fold min xs (a :: real) = Min (set (a # xs))"
  by (simp only: Min.set_eq_fold)

lemma fold_max_Max: "fold max xs (a :: real) = Max (set (a # xs))"
  by (simp only: Max.set_eq_fold)

lemma sum_list_mset_cong:
  fixes f :: "'a \<Rightarrow> real"
  assumes "mset xs = mset ys"
  shows "sum_list (map f xs) = sum_list (map f ys)"
proof -
  have "mset (map f xs) = mset (map f ys)" using assms by (metis mset_map)
  then have "sum_mset (mset (map f xs)) = sum_mset (mset (map f ys))" by simp
  then show ?thesis by (simp only: sum_mset_sum_list)
qed

lemma sum_list_concat_map:
  fixes f :: "'a \<Rightarrow> real"
  shows "sum_list (map (\<lambda>xs. sum_list (map f xs)) xss) = sum_list (map f (concat xss))"
  by (induction xss) simp_all

lemma samples_nth: "map (sample_at img) [0..<length (data img)] = samples img"
  unfolding samples_def by (rule nth_equalityI) (simp_all add: sample_at_def)

lemma sample_le: "v \<in> set (samples img) \<Longrightarrow> v \<le> 255"
  unfolding samples_def using unat_uint8_le by auto

lemma sample_ge:
  assumes "v \<in> set (samples img)"
  shows "0 \<le> v"
proof -
  from assms obtain x :: uint8 where v: "v = unsigned x" unfolding samples_def by auto
  have "0 \<le> real (unat x)" by (rule of_nat_0_le_iff)
  then show ?thesis unfolding v by simp
qed

lemma omp_partition_set: "omp_partition n threads \<Longrightarrow> set (concat threads) = {0..<n}"
  unfolding omp_partition_def by (drule mset_eq_setD) simp

lemma reduced_min:
  assumes "omp_partition (length (data img)) threads" and "data img \<noteq> []"
  shows "fold min (map (\<lambda>part. fold min (map (sample_at img) part) DBL_MAX) threads) 255
           = Min (set (samples img))"
proof -
  let ?val = "sample_at img"
  let ?m = "\<lambda>part. Min (set (DBL_MAX # map ?val part))"
  let ?r = "Min (set (255 # map ?m threads))"
  let ?V = "set (samples img)"
  have V: "?V = ?val ` {0..<length (data img)}"
    unfolding samples_nth [symmetric] by simp
  have idx: "set (concat threads) = {0..<length (data img)}"
    using assms(1) by (rule omp_partition_set)
  have le: "?r \<le> y" if "y \<in> ?V" for y
  proof -
    from that V obtain i where i0: "y = ?val i" "i \<in> {0..<length (data img)}" by auto
    then have "i \<in> set (concat threads)" using idx by simp
    then obtain part where "i \<in> set part" "part \<in> set threads" by auto
    with i0 have i: "y = ?val i" "i \<in> set part" "part \<in> set threads" by simp_all
    have a: "?m part \<le> y" unfolding i(1) using i(2) by (intro Min_le) simp_all
    have b: "?r \<le> ?m part" using i(3) by (intro Min_le) simp_all
    from b a show ?thesis by (rule order_trans)
  qed
  from assms(2) obtain y where y: "y \<in> ?V" unfolding samples_def by (cases "data img") auto
  have "?r \<in> set (255 # map ?m threads)" by (intro Min_in) simp_all
  then consider "?r = 255" | part where "part \<in> set threads" "?r = ?m part" by auto
  then have mem: "?r \<in> ?V"
  proof cases
    case 1
    with le [OF y] sample_le [OF y] have "y = ?r" by simp
    with y show ?thesis by simp
  next
    case 2
    have "?m part \<in> set (DBL_MAX # map ?val part)" by (intro Min_in) simp_all
    then consider "?m part = DBL_MAX" | i where "i \<in> set part" "?m part = ?val i" by auto
    then show ?thesis
    proof cases
      case 1
      with 2 le [OF y] sample_le [OF y] DBL_MAX_gt show ?thesis by simp
    next
      case 2
      with \<open>part \<in> set threads\<close> idx have "i \<in> {0..<length (data img)}" by auto
      with 2 \<open>?r = ?m part\<close> V show ?thesis by auto
    qed
  qed
  have "Min ?V = ?r" using le mem by (intro Min_eqI) simp_all
  then show ?thesis by (simp only: fold_min_Min)
qed

lemma reduced_max:
  assumes "omp_partition (length (data img)) threads" and "data img \<noteq> []"
  shows "fold max (map (\<lambda>part. fold max (map (sample_at img) part) (- DBL_MAX)) threads) 0
           = Max (set (samples img))"
proof -
  let ?val = "sample_at img"
  let ?m = "\<lambda>part. Max (set (- DBL_MAX # map ?val part))"
  let ?r = "Max (set (0 # map ?m threads))"
  let ?V = "set (samples img)"
  have V: "?V = ?val ` {0..<length (data img)}"
    unfolding samples_nth [symmetric] by simp
  have idx: "set (concat threads) = {0..<length (data img)}"
    using assms(1) by (rule omp_partition_set)
  have ge: "y \<le> ?r" if "y \<in> ?V" for y
  proof -
    from that V obtain i where i0: "y = ?val i" "i \<in> {0..<length (data img)}" by auto
    then have "i \<in> set (concat threads)" using idx by simp
    then obtain part where "i \<in> set part" "part \<in> set threads" by auto
    with i0 have i: "y = ?val i" "i \<in> set part" "part \<in> set threads" by simp_all
    have a: "y \<le> ?m part" unfolding i(1) using i(2) by (intro Max_ge) simp_all
    have b: "?m part \<le> ?r" using i(3) by (intro Max_ge) simp_all
    from a b show ?thesis by (rule order_trans)
  qed
  from assms(2) obtain y where y: "y \<in> ?V" unfolding samples_def by (cases "data img") auto
  have "?r \<in> set (0 # map ?m threads)" by (intro Max_in) simp_all
  then consider "?r = 0" | part where "part \<in> set threads" "?r = ?m part" by auto
  then have mem: "?r \<in> ?V"
  proof cases
    case 1
    with ge [OF y] sample_ge [OF y] have "y = ?r" by simp
    with y show ?thesis by simp
  next
    case 2
    have "?m part \<in> set (- DBL_MAX # map ?val part)" by (intro Max_in) simp_all
    then consider "?m part = - DBL_MAX" | i where "i \<in> set part" "?m part = ?val i" by auto
    then show ?thesis
    proof cases
      case 1
      with 2 ge [OF y] sample_ge [OF y] DBL_MAX_gt show ?thesis by simp
    next
      case 2
      with \<open>part \<in> set threads\<close> idx have "i \<in> {0..<length (data img)}" by auto
      with 2 \<open>?r = ?m part\<close> V show ?thesis by auto
    qed
  qed
  have "Max ?V = ?r" using ge mem by (intro Max_eqI) simp_all
  then show ?thesis by (simp only: fold_max_Max)
qed

lemma reduced_sum:
  fixes f :: "nat \<Rightarrow> real"
  assumes "omp_partition n threads"
  shows "sum_list (map (\<lambda>part. sum_list (map f part)) threads) = sum_list (map f [0..<n])"
  unfolding sum_list_concat_map
  using assms unfolding omp_partition_def by (rule sum_list_mset_cong)

lemma squares_nth:
  "map (\<lambda>i. sample_at img i * sample_at img i) [0..<length (data img)] =
     map (\<lambda>v. v * v) (samples img)"
  unfolding samples_def by (rule nth_equalityI) (simp_all add: sample_at_def)

lemma statistics_value:
  assumes "omp_partition (length (data img)) threads" and "data img \<noteq> []"
  shows "compute_statistics_parallel img (\<lambda>n. threads) =
     \<lparr>min_val_out = Min (set (samples img)),
      max_val_out = Max (set (samples img)),
      mean_out = sum_list (samples img) / real (length (data img)),
      variance_out = sum_list (map (\<lambda>v. v * v) (samples img)) / real (length (data img)) -
        (sum_list (samples img) / real (length (data img))) *
        (sum_list (samples img) / real (length (data img)))\<rparr>"
  using assms(2)
  unfolding compute_statistics_parallel_def Let_def
  by (simp add: statistics_thread statistics_team comp_def
      reduced_min [OF assms] reduced_max [OF assms]
      reduced_sum [OF assms(1)] samples_nth squares_nth)

lemma statistics_team_const:
  "compute_statistics_parallel img team =
     compute_statistics_parallel img (\<lambda>n. team (length (data img)))"
  by (simp add: compute_statistics_parallel_def)

lemma sum_squared_deviations:
  fixes xs :: "real list"
  shows "sum_list (map (\<lambda>x. (x - m) * (x - m)) xs) =
           sum_list (map (\<lambda>x. x * x) xs) - 2 * m * sum_list xs + real (length xs) * m * m"
  by (induction xs) (simp_all add: algebra_simps)

lemma raw_moment_variance_nonneg:
  fixes xs :: "real list"
  assumes "xs \<noteq> []"
  shows "0 \<le> sum_list (map (\<lambda>x. x * x) xs) / real (length xs) -
              (sum_list xs / real (length xs)) * (sum_list xs / real (length xs))"
proof -
  let ?n = "real (length xs)" and ?m = "sum_list xs / real (length xs)"
  have n: "0 < ?n" using assms by simp
  have s: "sum_list xs = ?n * ?m" using n by simp
  have "0 \<le> sum_list (map (\<lambda>x. (x - ?m) * (x - ?m)) xs)"
    by (intro sum_list_nonneg) auto
  also have "\<dots> = sum_list (map (\<lambda>x. x * x) xs) - 2 * ?m * (?n * ?m) + ?n * ?m * ?m"
    unfolding sum_squared_deviations using s by simp
  also have "\<dots> = sum_list (map (\<lambda>x. x * x) xs) - ?n * (?m * ?m)"
    by (simp add: algebra_simps)
  finally have "?n * (?m * ?m) \<le> sum_list (map (\<lambda>x. x * x) xs)" by simp
  then have "?m * ?m \<le> sum_list (map (\<lambda>x. x * x) xs) / ?n"
    using n by (simp add: pos_le_divide_eq mult.commute)
  then show ?thesis by simp
qed

text \<open>
  Claim C4. For every non-empty image and every distribution of the iterations over the
  team, the statistics are the least sample, the greatest sample, the sum of the
  samples over their number \<open>n\<close>, and the sum of the squared samples over \<open>n\<close> minus the
  squared mean; for an empty image all four are zero. For the samples 0, 10, 20, 30
  they are 0, 30, 15 and 125.
\<close>

theorem statistics_correct:
  assumes "omp_partition (length (data img)) (team (length (data img)))"
  shows "(data img \<noteq> [] \<longrightarrow>
           min_val_out (compute_statistics_parallel img team) = Min (set (samples img)) \<and>
           max_val_out (compute_statistics_parallel img team) = Max (set (samples img)) \<and>
           mean_out (compute_statistics_parallel img team) =
             sum_list (samples img) / real (length (data img)) \<and>
           variance_out (compute_statistics_parallel img team) =
             sum_list (map (\<lambda>v. v * v) (samples img)) / real (length (data img)) -
             (mean_out (compute_statistics_parallel img team))\<^sup>2) \<and>
         (data img = [] \<longrightarrow>
           compute_statistics_parallel img team =
             \<lparr>min_val_out = 0, max_val_out = 0, mean_out = 0, variance_out = 0\<rparr>)"
proof (cases "data img = []")
  case True
  then show ?thesis by (simp add: compute_statistics_parallel_def)
next
  case False
  show ?thesis
    unfolding statistics_team_const [of img team] statistics_value [OF assms False]
    using False by (simp add: power2_eq_square)
qed

theorem statistics_correct_witness:
  "omp_partition (length (data image_stats)) (example_team (length (data image_stats))) \<and>
   data image_stats = [0, 10, 20, 30] \<and>
   min_val_out (compute_statistics_parallel image_stats example_team) = 0 \<and>
   max_val_out (compute_statistics_parallel image_stats example_team) = 30 \<and>
   mean_out (compute_statistics_parallel image_stats example_team) = 15 \<and>
   variance_out (compute_statistics_parallel image_stats example_team) = 125 \<and>
   omp_partition (length (data image_empty)) (example_team (length (data image_empty))) \<and>
   compute_statistics_parallel image_empty example_team =
     \<lparr>min_val_out = 0, max_val_out = 0, mean_out = 0, variance_out = 0\<rparr>"
proof -
  let ?S = "compute_statistics_parallel image_stats example_team"
  have d: "data image_stats = [0, 10, 20, 30]" by (simp add: image_stats_def)
  have h: "omp_partition (length (data image_stats)) (example_team (length (data image_stats)))"
    unfolding d by code_simp
  have ne: "data image_stats \<noteq> []" unfolding d by simp
  have s: "samples image_stats = [0, 10, 20, 30]" unfolding samples_def d by simp
  have l: "real (length (data image_stats)) = 4" unfolding d by simp
  from statistics_correct [of image_stats example_team, OF h] ne
  have t: "min_val_out ?S = Min (set (samples image_stats))"
    "max_val_out ?S = Max (set (samples image_stats))"
    "mean_out ?S = sum_list (samples image_stats) / real (length (data image_stats))"
    "variance_out ?S =
       sum_list (map (\<lambda>v. v * v) (samples image_stats)) / real (length (data image_stats)) -
       (mean_out ?S)\<^sup>2"
    by simp_all
  have m: "min_val_out ?S = 0" unfolding t(1) s by simp
  have x: "max_val_out ?S = 30" unfolding t(2) s by simp
  have a: "mean_out ?S = 15" unfolding t(3) s l by simp
  have v: "variance_out ?S = 125" unfolding t(4) a s l by simp
  have de: "data image_empty = []" by (simp add: image_empty_def)
  have he: "omp_partition (length (data image_empty)) (example_team (length (data image_empty)))"
    unfolding de by (simp add: omp_partition_def example_team_def)
  from statistics_correct [of image_empty example_team, OF he] de
  have e: "compute_statistics_parallel image_empty example_team =
     \<lparr>min_val_out = 0, max_val_out = 0, mean_out = 0, variance_out = 0\<rparr>"
    by simp
  show ?thesis using h d m x a v he e by (intro conjI)
qed

text \<open>
  Claim C9. For every non-empty image the variance that the statistics return is not
  negative (arithmetic on \<^verbatim>\<open>double\<close> taken as exact).
\<close>

theorem variance_nonneg:
  assumes "omp_partition (length (data img)) (team (length (data img)))" and "data img \<noteq> []"
  shows "0 \<le> variance_out (compute_statistics_parallel img team)"
proof -
  have "samples img \<noteq> []" "length (samples img) = length (data img)"
    using assms(2) by (simp_all add: samples_def)
  then show ?thesis
    unfolding statistics_team_const [of img team] statistics_value [OF assms]
    using raw_moment_variance_nonneg [of "samples img"] by simp
qed

theorem variance_nonneg_witness:
  "omp_partition (length (data image_stats)) (single_worker (length (data image_stats))) \<and>
   data image_stats \<noteq> [] \<and>
   0 \<le> variance_out (compute_statistics_parallel image_stats single_worker)"
proof -
  have d: "data image_stats = [0, 10, 20, 30]" by (simp add: image_stats_def)
  have h: "omp_partition (length (data image_stats)) (single_worker (length (data image_stats)))"
    unfolding d by code_simp
  have ne: "data image_stats \<noteq> []" unfolding d by simp
  show ?thesis
    using h ne variance_nonneg [of image_stats single_worker, OF h ne] by (intro conjI)
qed

end
